theory Spec2Isabelle
  imports Complex_Main
begin

section \<open>Values, errors and arrays\<close>

text \<open>
  The joins of \<^verbatim>\<open>src/join.c\<close> work on R vectors. A numeric vector (\<^verbatim>\<open>REAL(x)\<close>) is
  modelled as the list of the values of its doubles, which are real numbers: the inputs are
  documented as sorted and free of NA, and they and the tolerances are taken to be finite
  doubles. The only arithmetic the joins do on them is \<^verbatim>\<open>fabs(a - b)\<close>; the model rounds
  the difference as IEEE 754 binary64 does (section below), so a distance is a double
  again, or \<^verbatim>\<open>+Inf\<close> when the subtraction overflows. \<^verbatim>\<open>R_PosInf\<close>, the look-ahead distance
  past the end of a vector, is the same \<open>PosInf\<close>. Comparisons of doubles are exact. An
  integer vector is a list of integers, \<^verbatim>\<open>NA_INTEGER\<close> being R's \<^verbatim>\<open>INT_MIN\<close>. Vector
  lengths are unbounded naturals.

  \<^verbatim>\<open>error(...)\<close> leaves the call: it is the result \<open>Inl UsageError\<close>. An access outside an
  array is undefined in C; the model makes it the result \<open>Inl OutOfBounds\<close>, so that a
  theorem saying a call returns \<open>Inr\<close> also says every access was inside its array.
\<close>

datatype error = UsageError | OutOfBounds

definition NA_INTEGER :: int where
  "NA_INTEGER = - 2147483648"

datatype dist = Fin real | PosInf

fun dist_less :: "dist \<Rightarrow> dist \<Rightarrow> bool" where
  "dist_less (Fin a) (Fin b) = (a < b)"
| "dist_less (Fin a) PosInf = True"
| "dist_less PosInf d = False"

fun dist_le :: "dist \<Rightarrow> dist \<Rightarrow> bool" where
  "dist_le (Fin a) (Fin b) = (a \<le> b)"
| "dist_le d PosInf = True"
| "dist_le PosInf (Fin b) = False"

subsection \<open>Double arithmetic\<close>

text \<open>
  Rounding to binary64, round to nearest, ties to even. The doubles around a magnitude \<open>a\<close>
  are the multiples of \<open>ulp a\<close>, the power of two \<open>u\<close> with \<open>2^52 u \<le> a < 2^53 u\<close>, kept
  between \<open>2^-1074\<close> (the spacing of the subnormal numbers) and \<open>2^971\<close> (the spacing below
  the largest double). \<open>ulp\<close> finds it by doubling or halving from 1. \<open>fl x\<close> is the
  multiple of \<open>ulp |x|\<close> nearest to \<open>x\<close>; a result beyond \<^verbatim>\<open>DBL_MAX\<close> is an overflow.
  \<^verbatim>\<open>fabs\<close> is exact.
\<close>

definition round_even :: "real \<Rightarrow> int" where
  "round_even r =
     (let n = \<lfloor>r\<rfloor>; d = r - of_int n in
      if d < 1 / 2 then n else if 1 / 2 < d then n + 1 else if even n then n else n + 1)"

fun ulp_up :: "nat \<Rightarrow> real \<Rightarrow> real \<Rightarrow> real" where
  "ulp_up 0 u a = u"
| "ulp_up (Suc n) u a = (if a < 2 ^ 53 * u then u else ulp_up n (2 * u) a)"

fun ulp_down :: "nat \<Rightarrow> real \<Rightarrow> real \<Rightarrow> real" where
  "ulp_down 0 u a = u"
| "ulp_down (Suc n) u a = (if 2 ^ 52 * u \<le> a then u else ulp_down n (u / 2) a)"

definition ulp :: "real \<Rightarrow> real" where
  "ulp a = (if 2 ^ 53 \<le> a then ulp_up 971 1 a else ulp_down 1074 1 a)"

definition fl :: "real \<Rightarrow> real" where
  "fl x = of_int (round_even (x / ulp \<bar>x\<bar>)) * ulp \<bar>x\<bar>"

definition DBL_MAX :: real where
  "DBL_MAX = (2 ^ 53 - 1) * 2 ^ 971"

definition fabs_diff :: "real \<Rightarrow> real \<Rightarrow> dist" where
  "fabs_diff a b = (let d = \<bar>fl (a - b)\<bar> in if DBL_MAX < d then PosInf else Fin d)"

definition store :: "int list \<Rightarrow> int \<Rightarrow> int \<Rightarrow> error + int list" where
  "store a i v = (if 0 \<le> i \<and> i < int (length a) then Inr (a[nat i := v]) else Inl OutOfBounds)"

definition seq :: "error + 'a \<Rightarrow> ('a \<Rightarrow> error + 'b) \<Rightarrow> error + 'b" where
  "seq r f = (case r of Inl e \<Rightarrow> Inl e | Inr v \<Rightarrow> f v)"

section \<open>The outer join \<^verbatim>\<open>C_join_outer\<close>\<close>

text \<open>
  The local variables of the scans: the two cursors and the two result buffers, which both
  \<^verbatim>\<open>C_join_outer\<close> and \<^verbatim>\<open>C_join_left\<close> have, and for the outer join the row index
  \<^verbatim>\<open>idx\<close> and the direction flag \<^verbatim>\<open>i_path\<close> (1: the last step incremented y, -1: it
  incremented x, 0: neither). The variables \<^verbatim>\<open>xi_last\<close> and \<^verbatim>\<open>yi_last\<close> of the source
  are never used and are left out.
\<close>

record scan =
  xi :: nat
  yi :: nat
  presx :: "int list"
  presy :: "int list"

record outer_state = scan +
  idx :: int
  i_path :: int

definition put_presx :: "'a scan_scheme \<Rightarrow> int \<Rightarrow> int \<Rightarrow> error + 'a scan_scheme" where
  "put_presx s i v =
     (case store (presx s) i v of Inl e \<Rightarrow> Inl e | Inr a \<Rightarrow> Inr (s\<lparr>presx := a\<rparr>))"

definition put_presy :: "'a scan_scheme \<Rightarrow> int \<Rightarrow> int \<Rightarrow> error + 'a scan_scheme" where
  "put_presy s i v =
     (case store (presy s) i v of Inl e \<Rightarrow> Inl e | Inr a \<Rightarrow> Inr (s\<lparr>presy := a\<rparr>))"

text \<open>One iteration of the \<^verbatim>\<open>while\<close> loop, statement by statement.\<close>

definition outer_body :: "real list \<Rightarrow> real list \<Rightarrow> real list \<Rightarrow> outer_state \<Rightarrow> error + outer_state" where
  "outer_body px py tol s0 =
    (let lx = length px; ly = length py;
         s = s0\<lparr>idx := idx s0 + 1\<rparr> in
     if xi s \<ge> lx then
       (let s = s\<lparr>yi := yi s + 1\<rparr> in
        seq (put_presx s (idx s) NA_INTEGER) (\<lambda>s. put_presy s (idx s) (int (yi s))))
     else if yi s \<ge> ly then
       (let s = s\<lparr>xi := xi s + 1\<rparr> in
        seq (put_presx s (idx s) (int (xi s))) (\<lambda>s. put_presy s (idx s) NA_INTEGER))
     else if xi s \<ge> length tol then Inl OutOfBounds
     else
       (let idiff = fabs_diff (px ! xi s) (py ! yi s) in
        if dist_le idiff (Fin (tol ! xi s)) then
          (let xi_next = xi s + 1; yi_next = yi s + 1 in
           seq (put_presx s (idx s) (int xi_next)) (\<lambda>s.
           seq (put_presy s (idx s) (int yi_next)) (\<lambda>s.
             let xdiff = (if xi_next < lx then fabs_diff (px ! xi_next) (py ! yi s) else PosInf);
                 ydiff = (if yi_next < ly then fabs_diff (px ! xi s) (py ! yi_next) else PosInf) in
             if dist_less xdiff idiff \<or> dist_less ydiff idiff then
               if dist_less xdiff ydiff then
                 (let s = s\<lparr>xi := xi_next\<rparr> in
                  seq (if i_path s > 0 then (let s = s\<lparr>idx := idx s - 1\<rparr> in put_presx s (idx s) (int xi_next))
                       else put_presy s (idx s) NA_INTEGER)
                      (\<lambda>s. Inr (s\<lparr>i_path := - 1\<rparr>)))
               else
                 (let s = s\<lparr>yi := yi_next\<rparr> in
                  seq (if i_path s < 0 then (let s = s\<lparr>idx := idx s - 1\<rparr> in put_presy s (idx s) (int yi_next))
                       else put_presx s (idx s) NA_INTEGER)
                      (\<lambda>s. Inr (s\<lparr>i_path := 1\<rparr>)))
             else Inr (s\<lparr>i_path := 0, xi := xi_next, yi := yi_next\<rparr>))))
        else
          (let s = s\<lparr>i_path := 0\<rparr> in
           if px ! xi s < py ! yi s then
             (let s = s\<lparr>xi := xi s + 1\<rparr> in
              seq (put_presx s (idx s) (int (xi s))) (\<lambda>s. put_presy s (idx s) NA_INTEGER))
           else
             (let s = s\<lparr>yi := yi s + 1\<rparr> in
              seq (put_presx s (idx s) NA_INTEGER) (\<lambda>s. put_presy s (idx s) (int (yi s)))))))"

lemma outer_body_advances:
  assumes "outer_body px py tol s = Inr s'" and "xi s < length px \<or> yi s < length py"
  shows "length px - xi s' + (length py - yi s') < length px - xi s + (length py - yi s)"
  using assms
  by (auto simp: outer_body_def Let_def seq_def put_presx_def put_presy_def store_def
      split: if_splits sum.splits)

function outer_loop :: "real list \<Rightarrow> real list \<Rightarrow> real list \<Rightarrow> outer_state \<Rightarrow> error + outer_state" where
  "outer_loop px py tol s =
     (if xi s < length px \<or> yi s < length py then
        (case outer_body px py tol s of Inl e \<Rightarrow> Inl e | Inr s' \<Rightarrow> outer_loop px py tol s')
      else Inr s)"
  by pat_completeness auto
termination
  by (relation "measure (\<lambda>(px, py, tol, s). length px - xi s + (length py - yi s))")
     (auto dest: outer_body_advances)

declare outer_loop.simps [simp del]

text \<open>
  The call: the length check, the two buffers of \<open>lx + ly\<close> cells (their first content is
  never read before it is written; the model fills them with 0), the loop, and the copy of
  the first \<open>idx\<close> rows into the result.
\<close>

definition outer_init :: "nat \<Rightarrow> outer_state" where
  "outer_init n = \<lparr>xi = 0, yi = 0, presx = replicate n 0, presy = replicate n 0, idx = - 1, i_path = 0\<rparr>"

definition C_join_outer :: "real list \<Rightarrow> real list \<Rightarrow> real list \<Rightarrow> error + int list \<times> int list" where
  "C_join_outer x y tolerance =
     (if length x \<noteq> length tolerance then Inl UsageError
      else case outer_loop x y tolerance (outer_init (length x + length y)) of
          Inl e \<Rightarrow> Inl e
        | Inr s \<Rightarrow>
            (let n = idx s + 1 in
             if 0 \<le> n \<and> n \<le> int (length (presx s)) \<and> n \<le> int (length (presy s))
             then Inr (take (nat n) (presx s), take (nat n) (presy s))
             else Inl OutOfBounds))"

text \<open>
  The number of iterations the loop makes from a state: the same recursion, counting.
\<close>

function outer_iterations :: "real list \<Rightarrow> real list \<Rightarrow> real list \<Rightarrow> outer_state \<Rightarrow> nat" where
  "outer_iterations px py tol s =
     (if xi s < length px \<or> yi s < length py then
        (case outer_body px py tol s of Inl e \<Rightarrow> 0 | Inr s' \<Rightarrow> Suc (outer_iterations px py tol s'))
      else 0)"
  by pat_completeness auto
termination
  by (relation "measure (\<lambda>(px, py, tol, s). length px - xi s + (length py - yi s))")
     (auto dest: outer_body_advances)

declare outer_iterations.simps [simp del]

section \<open>The left join \<^verbatim>\<open>C_join_left\<close>\<close>

text \<open>
  The direct scan keeps, besides the cursors and the buffers, the last pair it wrote as a
  match: \<^verbatim>\<open>yi_last_used\<close> and \<^verbatim>\<open>xi_last_used\<close>. The source initialises
  \<^verbatim>\<open>int xi_last_used = R_PosInf\<close>; converting infinity to \<^verbatim>\<open>int\<close> has no defined
  result in C, so the model takes that first value as the argument \<open>u\<close> of the call.
\<close>

record left_state = scan +
  yi_last_used :: int
  xi_last_used :: int

definition left_body :: "real list \<Rightarrow> real list \<Rightarrow> real list \<Rightarrow> left_state \<Rightarrow> error + left_state" where
  "left_body px py tol s =
    (let lx = length px; ly = length py; xi_next = xi s + 1 in
     if yi s < ly then
       (let yi_next = yi s + 1 in
        if xi s \<ge> length tol then Inl OutOfBounds
        else
          (let idiff = fabs_diff (px ! xi s) (py ! yi s);
               xdiff = (if xi_next < lx then fabs_diff (px ! xi_next) (py ! yi s) else PosInf);
               ydiff = (if yi_next < ly then fabs_diff (px ! xi s) (py ! yi_next) else PosInf) in
           seq (if dist_le idiff (Fin (tol ! xi s)) then
                  seq (put_presx s (int (xi s)) (int xi_next)) (\<lambda>s.
                  seq (put_presy s (int (xi s)) (int yi_next)) (\<lambda>s.
                  seq (if int (yi s) = yi_last_used s \<and> int (xi s) > xi_last_used s then
                         (if dist_less idiff ydiff \<or> dist_less xdiff ydiff
                          then put_presy s (xi_last_used s) NA_INTEGER
                          else Inr s)
                       else Inr s) (\<lambda>s.
                  Inr (s\<lparr>yi_last_used := int (yi s), xi_last_used := int (xi s)\<rparr>))))
                else
                  seq (put_presx s (int (xi s)) (int xi_next)) (\<lambda>s.
                  put_presy s (int (xi s)) NA_INTEGER))
               (\<lambda>s. if dist_less xdiff idiff \<or> dist_less ydiff idiff then
                       (if dist_less xdiff ydiff then Inr (s\<lparr>xi := xi_next\<rparr>)
                        else Inr (s\<lparr>yi := yi_next\<rparr>))
                     else Inr (s\<lparr>yi := yi_next, xi := xi_next\<rparr>))))
     else
       seq (put_presy s (int (xi s)) NA_INTEGER) (\<lambda>s.
       seq (put_presx s (int (xi s)) (int xi_next)) (\<lambda>s.
       Inr (s\<lparr>xi := xi_next\<rparr>))))"

lemma left_body_advances:
  assumes "left_body px py tol s = Inr s'" and "xi s < length px"
  shows "length px - xi s' + (length py - yi s') < length px - xi s + (length py - yi s)"
  using assms
  by (auto simp: left_body_def Let_def seq_def put_presx_def put_presy_def store_def
      split: if_splits sum.splits)

function left_loop :: "real list \<Rightarrow> real list \<Rightarrow> real list \<Rightarrow> left_state \<Rightarrow> error + left_state" where
  "left_loop px py tol s =
     (if xi s < length px then
        (case left_body px py tol s of Inl e \<Rightarrow> Inl e | Inr s' \<Rightarrow> left_loop px py tol s')
      else Inr s)"
  by pat_completeness auto
termination
  by (relation "measure (\<lambda>(px, py, tol, s). length px - xi s + (length py - yi s))")
     (auto dest: left_body_advances)

declare left_loop.simps [simp del]

definition left_init :: "int \<Rightarrow> nat \<Rightarrow> left_state" where
  "left_init u n = \<lparr>xi = 0, yi = 0, presx = replicate n 0, presy = replicate n 0,
     yi_last_used = - 1, xi_last_used = u\<rparr>"

definition C_join_left :: "int \<Rightarrow> real list \<Rightarrow> real list \<Rightarrow> real list \<Rightarrow> error + int list \<times> int list" where
  "C_join_left u x y tolerance =
     (if length x \<noteq> length tolerance then Inl UsageError
      else case left_loop x y tolerance (left_init u (length x)) of
          Inl e \<Rightarrow> Inl e
        | Inr s \<Rightarrow> Inr (presx s, presy s))"

section \<open>The second outer join \<^verbatim>\<open>C_join_outer2\<close>\<close>

text \<open>
  The variant with an explicit \<^verbatim>\<open>nomatch\<close> value. Its variables are the row index \<open>i\<close>, the
  cursors \<open>ix\<close> and \<open>iy\<close> and the buffers \<open>prx\<close> and \<open>pry\<close>. It has no check of the length of
  \<^verbatim>\<open>tolerance\<close>: reading \<^verbatim>\<open>ptolerance[ix]\<close> past its end is the result \<open>Inl OutOfBounds\<close>.
  \<^verbatim>\<open>SETLENGTH\<close> keeps the first \<open>i\<close> cells.
\<close>

type_synonym outer2_state = "nat \<times> nat \<times> nat \<times> int list \<times> int list"

definition outer2_body :: "real list \<Rightarrow> real list \<Rightarrow> real list \<Rightarrow> int \<Rightarrow> outer2_state \<Rightarrow> error + outer2_state" where
  "outer2_body pix piy ptolerance inomatch st =
    (case st of (i, ix, iy, prx, pry) \<Rightarrow>
     (let nx = length pix; ny = length piy in
      if ix \<ge> nx then
        seq (store prx (int i) inomatch) (\<lambda>prx.
        seq (store pry (int i) (int (iy + 1))) (\<lambda>pry.
        Inr (i + 1, ix, iy + 1, prx, pry)))
      else if iy \<ge> ny then
        seq (store prx (int i) (int (ix + 1))) (\<lambda>prx.
        seq (store pry (int i) inomatch) (\<lambda>pry.
        Inr (i + 1, ix + 1, iy, prx, pry)))
      else
        (let diff = fabs_diff (pix ! ix) (piy ! iy) in
         if ix \<ge> length ptolerance then Inl OutOfBounds
         else if dist_le diff (Fin (ptolerance ! ix)) then
           (let diffnxtx = (if ix + 1 < nx then fabs_diff (pix ! (ix + 1)) (piy ! iy) else PosInf);
                diffnxty = (if iy + 1 < ny then fabs_diff (pix ! ix) (piy ! (iy + 1)) else PosInf);
                diffnxtxy = (if ix + 1 < nx \<and> iy + 1 < ny
                             then fabs_diff (pix ! (ix + 1)) (piy ! (iy + 1)) else PosInf) in
            if (dist_less diffnxtx diff \<and> dist_less diffnxtx diffnxtxy) \<or>
               (dist_less diffnxty diff \<and> dist_less diffnxty diffnxtxy) then
              (if dist_less diffnxtx diffnxty then
                 seq (store prx (int i) (int (ix + 1))) (\<lambda>prx.
                 seq (store pry (int i) inomatch) (\<lambda>pry.
                 Inr (i + 1, ix + 1, iy, prx, pry)))
               else
                 seq (store prx (int i) inomatch) (\<lambda>prx.
                 seq (store pry (int i) (int (iy + 1))) (\<lambda>pry.
                 Inr (i + 1, ix, iy + 1, prx, pry))))
            else
              seq (store prx (int i) (int (ix + 1))) (\<lambda>prx.
              seq (store pry (int i) (int (iy + 1))) (\<lambda>pry.
              Inr (i + 1, ix + 1, iy + 1, prx, pry))))
         else
           (if pix ! ix < piy ! iy then
              seq (store prx (int i) (int (ix + 1))) (\<lambda>prx.
              seq (store pry (int i) inomatch) (\<lambda>pry.
              Inr (i + 1, ix + 1, iy, prx, pry)))
            else
              seq (store prx (int i) inomatch) (\<lambda>prx.
              seq (store pry (int i) (int (iy + 1))) (\<lambda>pry.
              Inr (i + 1, ix, iy + 1, prx, pry)))))))"

lemma outer2_body_advances:
  assumes "outer2_body pix piy ptol nm (i, ix, iy, prx, pry) = Inr (i', ix', iy', prx', pry')"
    and "ix < length pix \<or> iy < length piy"
  shows "length pix - ix' + (length piy - iy') < length pix - ix + (length piy - iy)"
  using assms
  by (auto simp: outer2_body_def Let_def seq_def store_def split: if_splits sum.splits)

function outer2_loop :: "real list \<Rightarrow> real list \<Rightarrow> real list \<Rightarrow> int \<Rightarrow> outer2_state \<Rightarrow> error + outer2_state" where
  "outer2_loop pix piy ptolerance inomatch (i, ix, iy, prx, pry) =
     (if ix < length pix \<or> iy < length piy then
        (case outer2_body pix piy ptolerance inomatch (i, ix, iy, prx, pry) of
           Inl e \<Rightarrow> Inl e
         | Inr st \<Rightarrow> outer2_loop pix piy ptolerance inomatch st)
      else Inr (i, ix, iy, prx, pry))"
  by pat_completeness auto
termination
  by (relation "measure (\<lambda>(pix, piy, ptol, nm, i, ix, iy, prx, pry). length pix - ix + (length piy - iy))")
     (auto dest: outer2_body_advances)

declare outer2_loop.simps [simp del]

definition C_join_outer2 :: "real list \<Rightarrow> real list \<Rightarrow> real list \<Rightarrow> int \<Rightarrow> error + int list \<times> int list" where
  "C_join_outer2 x y tolerance nomatch =
     (let n = length x + length y in
      case outer2_loop x y tolerance nomatch (0, 0, 0, replicate n 0, replicate n 0) of
        Inl e \<Rightarrow> Inl e
      | Inr (i, ix, iy, prx, pry) \<Rightarrow> Inr (take i prx, take i pry))"

section \<open>The duplicate resolver and the joins built on it\<close>

text \<open>
  Modelled from the spec: \<^verbatim>\<open>C_closest_dup_closest\<close>, the duplicate resolver with the
  \<^emph>\<open>closest\<close> policy, which \<^verbatim>\<open>C_join_left2\<close> and \<^verbatim>\<open>C_join_inner2\<close> call and whose source is
  not among the files of \<^verbatim>\<open>src/\<close>. The specification (section 4.1) gives its contract: the
  result has one entry per element of \<open>left\<close>; a candidate \<open>right[j]\<close> is acceptable for
  \<open>left[i]\<close> iff \<open>|left[i] - right[j]| \<le> tolerance[i]\<close>; every left element claims its best
  acceptable candidate; where several left elements claim the same right index, the one with
  the smallest absolute difference keeps it, a tie going to the lowest left index, and the
  others get the sentinel. A tolerance that is not a scalar and has not the length of \<open>left\<close>
  is a usage error. The specification does not say which of two equally distant acceptable
  candidates is the best one for a left element; the model takes the one with the lower
  index. The specification states the matching rule over the real numbers, and so does the
  model: the distances of the resolver are exact.
\<close>

text \<open>Modelled from the spec: the absolute difference of a left and a right element.\<close>

definition distance :: "real list \<Rightarrow> real list \<Rightarrow> nat \<Rightarrow> nat \<Rightarrow> real" where
  "distance left right i j = \<bar>left ! i - right ! j\<bar>"

text \<open>
  Modelled from the spec: the acceptable candidates of \<open>left[i]\<close>, as indices into
  \<open>right\<close> in ascending order.
\<close>

definition acceptable :: "real list \<Rightarrow> real list \<Rightarrow> real list \<Rightarrow> nat \<Rightarrow> nat list" where
  "acceptable left right tolerance i =
     filter (\<lambda>j. distance left right i j \<le> tolerance ! i) [0..<length right]"

text \<open>
  Modelled from the spec: the best acceptable candidate, the one at the smallest distance
  (\<open>arg_min_list\<close> returns the first of several minima, the lower index).
\<close>

definition best_match :: "real list \<Rightarrow> real list \<Rightarrow> real list \<Rightarrow> nat \<Rightarrow> nat option" where
  "best_match left right tolerance i =
     (case acceptable left right tolerance i of
        [] \<Rightarrow> None
      | j # js \<Rightarrow> Some (arg_min_list (distance left right i) (j # js)))"

text \<open>
  Modelled from the spec: the closest policy. Another left element \<open>k\<close> that claims the
  same right index \<open>j\<close> wins over \<open>i\<close> when it is closer, or equally close with \<open>k < i\<close>.
\<close>

definition outbid :: "real list \<Rightarrow> real list \<Rightarrow> real list \<Rightarrow> nat \<Rightarrow> nat \<Rightarrow> bool" where
  "outbid left right tolerance i j \<longleftrightarrow>
     list_ex (\<lambda>k. k \<noteq> i \<and> best_match left right tolerance k = Some j \<and>
                  (distance left right k j < distance left right i j \<or>
                   (distance left right k j = distance left right i j \<and> k < i)))
             [0..<length left]"

text \<open>
  Modelled from the spec: the result of the closest policy. Entry \<open>i\<close> is the 1-based index
  of the best acceptable candidate of \<open>left[i]\<close>, or the sentinel when there is none or when
  another left element outbids it.
\<close>

definition closest_match :: "real list \<Rightarrow> real list \<Rightarrow> real list \<Rightarrow> int \<Rightarrow> int list" where
  "closest_match x y tolerance nomatch =
     map (\<lambda>i. case best_match x y tolerance i of
                None \<Rightarrow> nomatch
              | Some j \<Rightarrow> if outbid x y tolerance i j then nomatch else int j + 1)
         [0..<length x]"

text \<open>
  Modelled from the spec: a tolerance is either a single scalar or a sequence with one
  bound per element of \<open>left\<close>. A scalar is a vector of length one; it is the bound of every
  left element.
\<close>

definition recycle :: "real list \<Rightarrow> nat \<Rightarrow> real list" where
  "recycle tolerance n = (if length tolerance = 1 then replicate n (tolerance ! 0) else tolerance)"

text \<open>
  Modelled from the spec: the resolver \<^verbatim>\<open>C_closest_dup_closest\<close> itself (its source is not
  under \<^verbatim>\<open>src/\<close>). A tolerance that is not a scalar and has not the length of \<open>left\<close> is a
  usage error, reported to the caller; otherwise the result is the one of the closest
  policy.
\<close>

definition C_closest_dup_closest :: "real list \<Rightarrow> real list \<Rightarrow> real list \<Rightarrow> int \<Rightarrow> error + int list" where
  "C_closest_dup_closest x y tolerance nomatch =
     (if length tolerance \<noteq> 1 \<and> length tolerance \<noteq> length x then Inl UsageError
      else Inr (closest_match x y (recycle tolerance (length x)) nomatch))"

text \<open>
  \<^verbatim>\<open>C_join_left2\<close>: the right column is the resolver's result, the left column is filled by
  the loop \<^verbatim>\<open>px[i] = i + 1\<close> over a fresh vector of the same length. An error of the
  resolver leaves the call.
\<close>

function left2_fill :: "nat \<Rightarrow> nat \<Rightarrow> int list \<Rightarrow> int list" where
  "left2_fill ny i px = (if i < ny then left2_fill ny (i + 1) (px[i := int i + 1]) else px)"
  by pat_completeness auto
termination
  by (relation "measure (\<lambda>(ny, i, px). ny - i)") auto

declare left2_fill.simps [simp del]

definition C_join_left2 :: "real list \<Rightarrow> real list \<Rightarrow> real list \<Rightarrow> int \<Rightarrow> error + int list \<times> int list" where
  "C_join_left2 x y tolerance nomatch =
     seq (C_closest_dup_closest x y tolerance nomatch) (\<lambda>ry.
       let ny = length ry;
           rx = left2_fill ny 0 (replicate ny 0)
       in Inr (rx, ry))"

text \<open>
  \<^verbatim>\<open>C_join_inner2\<close>: the loop compacts the resolver's result in place (\<^verbatim>\<open>py[j] = py[i]\<close>
  with \<open>j \<le> i\<close>) and writes the left index \<^verbatim>\<open>i + 1\<close> of each kept row into \<^verbatim>\<open>px[j]\<close>;
  \<^verbatim>\<open>SETLENGTH\<close> keeps the first \<open>j\<close> cells of both.
\<close>

function inner2_loop :: "int \<Rightarrow> nat \<Rightarrow> nat \<Rightarrow> nat \<Rightarrow> int list \<Rightarrow> int list \<Rightarrow> nat \<times> int list \<times> int list" where
  "inner2_loop inomatch ny i j px py =
     (if i < ny then
        (if py ! i \<noteq> inomatch
         then inner2_loop inomatch ny (i + 1) (j + 1) (px[j := int i + 1]) (py[j := py ! i])
         else inner2_loop inomatch ny (i + 1) j px py)
      else (j, px, py))"
  by pat_completeness auto
termination
  by (relation "measure (\<lambda>(inomatch, ny, i, j, px, py). ny - i)") auto

declare inner2_loop.simps [simp del]

definition C_join_inner2 :: "real list \<Rightarrow> real list \<Rightarrow> real list \<Rightarrow> int \<Rightarrow> error + int list \<times> int list" where
  "C_join_inner2 x y tolerance nomatch =
     seq (C_closest_dup_closest x y tolerance nomatch) (\<lambda>ry.
       let ny = length ry
       in case inner2_loop nomatch ny 0 0 (replicate ny 0) ry of
            (j, px, py) \<Rightarrow> Inr (take j px, take j py))"

section \<open>Properties of the double arithmetic\<close>

text \<open>
  Evaluation of \<open>ulp\<close> and \<open>fl\<close>: the search of \<open>ulp\<close> stops at the binade of its argument,
  and an integer below \<open>2^53\<close> in magnitude is a double.
\<close>

lemma round_even_of_int [simp]: "round_even (of_int n) = n"
  by (simp add: round_even_def)

lemma ulp_down_find:
  assumes "2 ^ 52 * (u / 2 ^ j) \<le> a" "a < 2 ^ 53 * (u / 2 ^ j)" "j \<le> n" "0 < u"
  shows "ulp_down n u a = u / 2 ^ j"
  using assms
proof (induction j arbitrary: n u)
  case 0
  then show ?case by (cases n) simp_all
next
  case (Suc j)
  then obtain m where n: "n = Suc m" by (cases n) auto
  have "u / 2 ^ j \<le> u" using Suc.prems(4) by (simp add: field_simps)
  then have "2 ^ 52 * (u / 2 ^ j) \<le> 2 ^ 52 * u" by simp
  moreover have "a < 2 ^ 52 * (u / 2 ^ j)" using Suc.prems(2) by simp
  ultimately have "\<not> 2 ^ 52 * u \<le> a" by simp
  moreover have "ulp_down m (u / 2) a = u / 2 / 2 ^ j"
    using Suc.prems n by (intro Suc.IH) simp_all
  ultimately show ?case by (simp add: n)
qed

lemma ulp_down_floor:
  assumes "a < 2 ^ 52 * (u / 2 ^ n)" "0 < u"
  shows "ulp_down n u a = u / 2 ^ n"
  using assms
proof (induction n arbitrary: u)
  case 0
  then show ?case by simp
next
  case (Suc n)
  have "(1::real) \<le> 2 * 2 ^ n" using one_le_power [of "2::real" "Suc n"] by simp
  then have "2 ^ 52 * (u / (2 * 2 ^ n)) \<le> 2 ^ 52 * u" using Suc.prems(2) by (simp add: field_simps)
  with Suc.prems(1) have "\<not> 2 ^ 52 * u \<le> a" by simp
  moreover have "ulp_down n (u / 2) a = u / 2 / 2 ^ n"
    using Suc.prems by (intro Suc.IH) simp_all
  ultimately show ?case by simp
qed

lemma ulp_down_power:
  "\<exists>j \<le> n. ulp_down n u a = u / 2 ^ j"
proof (induction n arbitrary: u)
  case 0
  then show ?case by simp
next
  case (Suc n)
  show ?case
  proof (cases "2 ^ 52 * u \<le> a")
    case True
    then have "ulp_down (Suc n) u a = u / 2 ^ 0" by simp
    then show ?thesis by blast
  next
    case False
    from Suc.IH [of "u / 2"] obtain j where "j \<le> n" "ulp_down n (u / 2) a = u / 2 / 2 ^ j" by blast
    with False have "Suc j \<le> Suc n" "ulp_down (Suc n) u a = u / 2 ^ Suc j" by simp_all
    then show ?thesis by blast
  qed
qed

lemma ulp_up_find:
  assumes "2 ^ 52 * (u * 2 ^ j) \<le> a" "a < 2 ^ 53 * (u * 2 ^ j)" "j \<le> n" "0 < u"
  shows "ulp_up n u a = u * 2 ^ j"
  using assms
proof (induction j arbitrary: n u)
  case 0
  then show ?case by (cases n) simp_all
next
  case (Suc j)
  then obtain m where n: "n = Suc m" by (cases n) auto
  have "u \<le> u * 2 ^ j" using Suc.prems(4) by (simp add: field_simps)
  then have "2 ^ 53 * u \<le> 2 ^ 53 * (u * 2 ^ j)" by simp
  moreover have "2 ^ 53 * (u * 2 ^ j) \<le> a" using Suc.prems(1) by simp
  ultimately have "\<not> a < 2 ^ 53 * u" by simp
  moreover have "ulp_up m (2 * u) a = 2 * u * 2 ^ j"
    using Suc.prems n by (intro Suc.IH) simp_all
  ultimately show ?case by (simp add: n)
qed

lemma ulp_small:
  assumes "2 ^ 52 \<le> a * 2 ^ j" "a * 2 ^ j < 2 ^ 53" "j \<le> 1074"
  shows "ulp a = 1 / 2 ^ j"
proof -
  have "0 < a * 2 ^ j" using assms(1) by (rule less_le_trans [rotated]) simp
  then have "0 \<le> a" by (simp add: zero_less_mult_iff)
  then have "a * 1 \<le> a * 2 ^ j"
    by (intro mult_left_mono) simp_all
  with assms(2) have "a < 2 ^ 53" by simp
  then have "ulp a = ulp_down 1074 1 a" by (simp add: ulp_def)
  also have "\<dots> = 1 / 2 ^ j"
    using assms by (intro ulp_down_find) (simp_all add: field_simps)
  finally show ?thesis .
qed

lemma ulp_big:
  assumes "2 ^ 52 * 2 ^ j \<le> a" "a < 2 ^ 53 * 2 ^ j" "1 \<le> j" "j \<le> 971"
  shows "ulp a = 2 ^ j"
proof -
  obtain k where k: "j = Suc k" using assms(3) by (cases j) auto
  have "(1::real) \<le> 2 ^ k" by simp
  then have "(2::real) ^ 53 \<le> 2 ^ 52 * 2 ^ j" unfolding k by simp
  with assms(1) have "2 ^ 53 \<le> a" by simp
  then have "ulp a = ulp_up 971 1 a" by (simp add: ulp_def)
  also have "\<dots> = 1 * 2 ^ j"
    using assms by (intro ulp_up_find) simp_all
  finally show ?thesis by simp
qed

lemma fl_small:
  assumes "2 ^ 52 \<le> \<bar>x\<bar> * 2 ^ j" "\<bar>x\<bar> * 2 ^ j < 2 ^ 53" "j \<le> 1074"
  shows "fl x = of_int (round_even (x * 2 ^ j)) / 2 ^ j"
  using ulp_small [OF assms] by (simp add: fl_def)

lemma fl_big:
  assumes "2 ^ 52 * 2 ^ j \<le> \<bar>x\<bar>" "\<bar>x\<bar> < 2 ^ 53 * 2 ^ j" "1 \<le> j" "j \<le> 971"
  shows "fl x = of_int (round_even (x / 2 ^ j)) * 2 ^ j"
  using ulp_big [OF assms] by (simp add: fl_def)

lemma fl_zero [simp]: "fl 0 = 0"
  by (simp add: fl_def round_even_def)

lemma fl_of_int:
  assumes "\<bar>of_int n :: real\<bar> < 2 ^ 53"
  shows "fl (of_int n) = of_int n"
proof -
  from assms have "ulp \<bar>of_int n\<bar> = ulp_down 1074 1 \<bar>of_int n\<bar>" by (simp add: ulp_def)
  with ulp_down_power [of 1074 1 "\<bar>of_int n\<bar>"]
  obtain j where j: "ulp \<bar>of_int n :: real\<bar> = 1 / 2 ^ j" by auto
  have "of_int n / (1 / 2 ^ j) = (of_int (n * 2 ^ j) :: real)" by simp
  then have "round_even (of_int n / (1 / 2 ^ j)) = n * 2 ^ j"
    by (simp only: round_even_of_int)
  then show ?thesis unfolding fl_def j by simp
qed

lemma fl_numeral [simp]:
  "(numeral k :: real) < 2 ^ 53 \<Longrightarrow> fl (numeral k) = numeral k"
  "(numeral k :: real) < 2 ^ 53 \<Longrightarrow> fl (- numeral k) = - numeral k"
  using fl_of_int [of "numeral k"] fl_of_int [of "- numeral k"] by simp_all

lemma fl_one [simp]: "fl 1 = 1" "fl (- 1) = - 1"
  using fl_of_int [of 1] fl_of_int [of "- 1"] by simp_all

lemma DBL_MAX_ge: "2 ^ 1023 \<le> DBL_MAX"
proof -
  have "(2::real) ^ 1023 = 2 ^ 52 * 2 ^ 971" by (simp add: power_add [symmetric])
  also have "\<dots> \<le> (2 ^ 53 - 1) * 2 ^ 971" by (intro mult_right_mono) simp_all
  finally show ?thesis by (simp add: DBL_MAX_def)
qed

lemma fabs_diff_below:
  assumes "\<bar>fl (a - b)\<bar> \<le> 2 ^ 1023"
  shows "fabs_diff a b = Fin \<bar>fl (a - b)\<bar>"
  using assms DBL_MAX_ge by (simp add: fabs_diff_def Let_def)

lemma fabs_diff_finite:
  assumes "\<bar>fl (a - b)\<bar> \<le> 2 ^ 53"
  shows "fabs_diff a b = Fin \<bar>fl (a - b)\<bar>"
proof -
  have "(2::real) ^ 53 \<le> 2 ^ 1023" by (rule power_increasing) simp_all
  with assms show ?thesis by (intro fabs_diff_below) simp
qed

lemma fabs_diff_eval:
  assumes "a - b = c" "fl c = d" "\<bar>d\<bar> \<le> 2 ^ 53" "e = \<bar>d\<bar>"
  shows "fabs_diff a b = Fin e"
  using assms by (simp add: fabs_diff_finite)


section \<open>Properties of the outer join\<close>

text \<open>
  The proofs below read the loop through the rows it has emitted so far: the first
  \<open>idx + 1\<close> cells of the two buffers, as pairs. Every iteration either appends a row or
  rewrites one column of the last row.
\<close>

definition xdiff_at :: "real list \<Rightarrow> real list \<Rightarrow> nat \<Rightarrow> nat \<Rightarrow> dist" where
  "xdiff_at px py i j = (if i + 1 < length px then fabs_diff (px ! (i + 1)) (py ! j) else PosInf)"

definition ydiff_at :: "real list \<Rightarrow> real list \<Rightarrow> nat \<Rightarrow> nat \<Rightarrow> dist" where
  "ydiff_at px py i j = (if j + 1 < length py then fabs_diff (px ! i) (py ! (j + 1)) else PosInf)"

definition idiff_at :: "real list \<Rightarrow> real list \<Rightarrow> nat \<Rightarrow> nat \<Rightarrow> dist" where
  "idiff_at px py i j = fabs_diff (px ! i) (py ! j)"

text \<open>The test \<^verbatim>\<open>idiff <= tol[xi]\<close> of the scans, on the distance as the code computes it.\<close>

definition within_tol :: "real list \<Rightarrow> real list \<Rightarrow> real list \<Rightarrow> nat \<Rightarrow> nat \<Rightarrow> bool" where
  "within_tol px py tol i j \<longleftrightarrow> dist_le (idiff_at px py i j) (Fin (tol ! i))"

definition better_ahead :: "real list \<Rightarrow> real list \<Rightarrow> nat \<Rightarrow> nat \<Rightarrow> bool" where
  "better_ahead px py i j \<longleftrightarrow>
     dist_less (xdiff_at px py i j) (idiff_at px py i j) \<or>
     dist_less (ydiff_at px py i j) (idiff_at px py i j)"

definition x_ahead :: "real list \<Rightarrow> real list \<Rightarrow> nat \<Rightarrow> nat \<Rightarrow> bool" where
  "x_ahead px py i j \<longleftrightarrow> dist_less (xdiff_at px py i j) (ydiff_at px py i j)"

definition room :: "outer_state \<Rightarrow> bool" where
  "room s \<longleftrightarrow> - 1 \<le> idx s \<and> idx s + 1 < int (length (presx s)) \<and> length (presy s) = length (presx s)"

lemmas body_defs = outer_body_def Let_def seq_def put_presx_def put_presy_def store_def room_def
  xdiff_at_def ydiff_at_def idiff_at_def within_tol_def better_ahead_def x_ahead_def

lemma body_drain_y:
  assumes "room s" "length px \<le> xi s"
  shows "outer_body px py tol s = Inr (s\<lparr>yi := yi s + 1, presx := (presx s)[nat (idx s + 1) := NA_INTEGER],
           presy := (presy s)[nat (idx s + 1) := int (yi s + 1)], idx := idx s + 1\<rparr>)"
  using assms by (auto simp: body_defs split: if_splits)

lemma body_drain_x:
  assumes "room s" "xi s < length px" "length py \<le> yi s"
  shows "outer_body px py tol s = Inr (s\<lparr>xi := xi s + 1, presx := (presx s)[nat (idx s + 1) := int (xi s + 1)],
           presy := (presy s)[nat (idx s + 1) := NA_INTEGER], idx := idx s + 1\<rparr>)"
  using assms by (auto simp: body_defs split: if_splits)

lemma body_accept:
  assumes "room s" "xi s < length px" "yi s < length py" "xi s < length tol"
    "within_tol px py tol (xi s) (yi s)" "\<not> better_ahead px py (xi s) (yi s)"
  shows "outer_body px py tol s = Inr (s\<lparr>xi := xi s + 1, yi := yi s + 1,
           presx := (presx s)[nat (idx s + 1) := int (xi s + 1)],
           presy := (presy s)[nat (idx s + 1) := int (yi s + 1)], idx := idx s + 1, i_path := 0\<rparr>)"
  using assms by (auto simp: body_defs split: if_splits)

lemma body_x_retro:
  assumes "room s" "xi s < length px" "yi s < length py" "xi s < length tol"
    "within_tol px py tol (xi s) (yi s)" "better_ahead px py (xi s) (yi s)"
    "x_ahead px py (xi s) (yi s)" "0 < i_path s" "0 \<le> idx s"
  shows "outer_body px py tol s = Inr (s\<lparr>xi := xi s + 1,
           presx := (presx s)[nat (idx s + 1) := int (xi s + 1), nat (idx s) := int (xi s + 1)],
           presy := (presy s)[nat (idx s + 1) := int (yi s + 1)], i_path := - 1\<rparr>)"
  using assms by (auto simp: body_defs split: if_splits)

lemma body_x_fresh:
  assumes "room s" "xi s < length px" "yi s < length py" "xi s < length tol"
    "within_tol px py tol (xi s) (yi s)" "better_ahead px py (xi s) (yi s)"
    "x_ahead px py (xi s) (yi s)" "\<not> 0 < i_path s"
  shows "outer_body px py tol s = Inr (s\<lparr>xi := xi s + 1,
           presx := (presx s)[nat (idx s + 1) := int (xi s + 1)],
           presy := (presy s)[nat (idx s + 1) := NA_INTEGER], idx := idx s + 1, i_path := - 1\<rparr>)"
  using assms by (auto simp: body_defs split: if_splits)

lemma body_y_retro:
  assumes "room s" "xi s < length px" "yi s < length py" "xi s < length tol"
    "within_tol px py tol (xi s) (yi s)" "better_ahead px py (xi s) (yi s)"
    "\<not> x_ahead px py (xi s) (yi s)" "i_path s < 0" "0 \<le> idx s"
  shows "outer_body px py tol s = Inr (s\<lparr>yi := yi s + 1,
           presx := (presx s)[nat (idx s + 1) := int (xi s + 1)],
           presy := (presy s)[nat (idx s + 1) := int (yi s + 1), nat (idx s) := int (yi s + 1)], i_path := 1\<rparr>)"
  using assms by (auto simp: body_defs split: if_splits)

lemma body_y_fresh:
  assumes "room s" "xi s < length px" "yi s < length py" "xi s < length tol"
    "within_tol px py tol (xi s) (yi s)" "better_ahead px py (xi s) (yi s)"
    "\<not> x_ahead px py (xi s) (yi s)" "\<not> i_path s < 0"
  shows "outer_body px py tol s = Inr (s\<lparr>yi := yi s + 1,
           presx := (presx s)[nat (idx s + 1) := NA_INTEGER],
           presy := (presy s)[nat (idx s + 1) := int (yi s + 1)], idx := idx s + 1, i_path := 1\<rparr>)"
  using assms by (auto simp: body_defs split: if_splits)

lemma body_x_alone:
  assumes "room s" "xi s < length px" "yi s < length py" "xi s < length tol"
    "\<not> within_tol px py tol (xi s) (yi s)" "px ! xi s < py ! yi s"
  shows "outer_body px py tol s = Inr (s\<lparr>xi := xi s + 1,
           presx := (presx s)[nat (idx s + 1) := int (xi s + 1)],
           presy := (presy s)[nat (idx s + 1) := NA_INTEGER], idx := idx s + 1, i_path := 0\<rparr>)"
  using assms by (auto simp: body_defs split: if_splits)

lemma body_y_alone:
  assumes "room s" "xi s < length px" "yi s < length py" "xi s < length tol"
    "\<not> within_tol px py tol (xi s) (yi s)" "\<not> px ! xi s < py ! yi s"
  shows "outer_body px py tol s = Inr (s\<lparr>yi := yi s + 1,
           presx := (presx s)[nat (idx s + 1) := NA_INTEGER],
           presy := (presy s)[nat (idx s + 1) := int (yi s + 1)], idx := idx s + 1, i_path := 0\<rparr>)"
  using assms by (auto simp: body_defs split: if_splits)


definition emitted :: "outer_state \<Rightarrow> (int \<times> int) list" where
  "emitted s = zip (take (nat (idx s + 1)) (presx s)) (take (nat (idx s + 1)) (presy s))"

definition outer_bounds :: "real list \<Rightarrow> real list \<Rightarrow> real list \<Rightarrow> outer_state \<Rightarrow> bool" where
  "outer_bounds px py tol s \<longleftrightarrow>
     length tol = length px \<and>
     length (presx s) = length px + length py \<and>
     length (presy s) = length px + length py \<and>
     xi s \<le> length px \<and> yi s \<le> length py \<and>
     - 1 \<le> idx s \<and> idx s + 1 \<le> int (xi s + yi s) \<and>
     (i_path s \<noteq> 0 \<longrightarrow> 0 \<le> idx s)"

lemma zip_take_append_row:
  assumes "n < length xs" "n < length ys"
  shows "zip (take (Suc n) (xs[n := a])) (take (Suc n) (ys[n := b])) = zip (take n xs) (take n ys) @ [(a, b)]"
  using assms by (simp add: take_Suc_conv_app_nth)

lemma zip_take_last_row:
  assumes "n < length xs" "n < length ys"
  shows "zip (take (Suc n) xs) (take (Suc n) ys) = zip (take n xs) (take n ys) @ [(xs ! n, ys ! n)]"
  using assms by (simp add: take_Suc_conv_app_nth)

lemma emitted_append:
  assumes "- 1 \<le> idx s" "idx s + 1 < int (length (presx s))" "length (presy s) = length (presx s)"
    "idx s' = idx s + 1" "presx s' = (presx s)[nat (idx s + 1) := a]" "presy s' = (presy s)[nat (idx s + 1) := b]"
  shows "emitted s' = emitted s @ [(a, b)]"
proof -
  define n where "n = nat (idx s + 1)"
  have n: "nat (idx s' + 1) = Suc n" "n < length (presx s)" "n < length (presy s)"
    using assms(1-4) by (auto simp: n_def)
  show ?thesis
    unfolding emitted_def n(1) assms(5,6) n_def [symmetric]
    using n(2,3) by (rule zip_take_append_row)
qed

lemma emitted_retro_x:
  assumes "0 \<le> idx s" "idx s + 1 < int (length (presx s))" "length (presy s) = length (presx s)"
    "idx s' = idx s" "presx s' = (presx s)[nat (idx s + 1) := a, nat (idx s) := a]"
    "presy s' = (presy s)[nat (idx s + 1) := b]"
  shows "emitted s \<noteq> [] \<and> emitted s' = butlast (emitted s) @ [(a, snd (last (emitted s)))]"
proof -
  define n where "n = nat (idx s)"
  have n: "nat (idx s + 1) = Suc n" "Suc n < length (presx s)" "Suc n < length (presy s)"
    using assms(1-3) by (auto simp: n_def)
  have e: "emitted s = zip (take n (presx s)) (take n (presy s)) @ [(presx s ! n, presy s ! n)]"
    unfolding emitted_def n(1) using n(2,3) by (simp add: zip_take_last_row)
  have "emitted s' = zip (take (Suc n) ((presx s)[n := a])) (take (Suc n) ((presy s)[n := presy s ! n]))"
    unfolding emitted_def assms(4,5,6) n(1) n_def [symmetric]
    by (simp add: list_update_swap [of "Suc n" n])
  also have "\<dots> = zip (take n (presx s)) (take n (presy s)) @ [(a, presy s ! n)]"
    using n(2,3) by (intro zip_take_append_row) auto
  finally show ?thesis using e by simp
qed

lemma emitted_retro_y:
  assumes "0 \<le> idx s" "idx s + 1 < int (length (presx s))" "length (presy s) = length (presx s)"
    "idx s' = idx s" "presx s' = (presx s)[nat (idx s + 1) := a]"
    "presy s' = (presy s)[nat (idx s + 1) := b, nat (idx s) := b]"
  shows "emitted s \<noteq> [] \<and> emitted s' = butlast (emitted s) @ [(fst (last (emitted s)), b)]"
proof -
  define n where "n = nat (idx s)"
  have n: "nat (idx s + 1) = Suc n" "Suc n < length (presx s)" "Suc n < length (presy s)"
    using assms(1-3) by (auto simp: n_def)
  have e: "emitted s = zip (take n (presx s)) (take n (presy s)) @ [(presx s ! n, presy s ! n)]"
    unfolding emitted_def n(1) using n(2,3) by (simp add: zip_take_last_row)
  have "emitted s' = zip (take (Suc n) ((presx s)[n := presx s ! n])) (take (Suc n) ((presy s)[n := b]))"
    unfolding emitted_def assms(4,5,6) n(1) n_def [symmetric]
    by (simp add: list_update_swap [of "Suc n" n])
  also have "\<dots> = zip (take n (presx s)) (take n (presy s)) @ [(presx s ! n, b)]"
    using n(2,3) by (intro zip_take_append_row) auto
  finally show ?thesis using e by simp
qed


definition moved :: "outer_state \<Rightarrow> outer_state \<Rightarrow> nat \<Rightarrow> nat \<Rightarrow> int \<Rightarrow> bool" where
  "moved s s' dx dy p \<longleftrightarrow>
     xi s' = xi s + dx \<and> yi s' = yi s + dy \<and> i_path s' = p \<and>
     length (presx s') = length (presx s) \<and> length (presy s') = length (presy s)"

lemma outer_body_cases [consumes 2, case_names drain_y drain_x accept x_retro x_fresh y_retro y_fresh x_alone y_alone]:
  assumes B: "outer_bounds px py tol s" and C: "xi s < length px \<or> yi s < length py"
  obtains
    (drain_y) s' where "length px \<le> xi s" "yi s < length py"
      "outer_body px py tol s = Inr s'" "moved s s' 0 1 (i_path s)" "idx s' = idx s + 1"
      "emitted s' = emitted s @ [(NA_INTEGER, int (yi s + 1))]"
  | (drain_x) s' where "xi s < length px" "length py \<le> yi s"
      "outer_body px py tol s = Inr s'" "moved s s' 1 0 (i_path s)" "idx s' = idx s + 1"
      "emitted s' = emitted s @ [(int (xi s + 1), NA_INTEGER)]"
  | (accept) s' where "xi s < length px" "yi s < length py"
      "within_tol px py tol (xi s) (yi s)" "\<not> better_ahead px py (xi s) (yi s)"
      "outer_body px py tol s = Inr s'" "moved s s' 1 1 0" "idx s' = idx s + 1"
      "emitted s' = emitted s @ [(int (xi s + 1), int (yi s + 1))]"
  | (x_retro) s' where "xi s < length px" "yi s < length py"
      "within_tol px py tol (xi s) (yi s)" "better_ahead px py (xi s) (yi s)"
      "x_ahead px py (xi s) (yi s)" "0 < i_path s"
      "outer_body px py tol s = Inr s'" "moved s s' 1 0 (- 1)" "idx s' = idx s"
      "emitted s \<noteq> []" "emitted s' = butlast (emitted s) @ [(int (xi s + 1), snd (last (emitted s)))]"
  | (x_fresh) s' where "xi s < length px" "yi s < length py"
      "within_tol px py tol (xi s) (yi s)" "better_ahead px py (xi s) (yi s)"
      "x_ahead px py (xi s) (yi s)" "\<not> 0 < i_path s"
      "outer_body px py tol s = Inr s'" "moved s s' 1 0 (- 1)" "idx s' = idx s + 1"
      "emitted s' = emitted s @ [(int (xi s + 1), NA_INTEGER)]"
  | (y_retro) s' where "xi s < length px" "yi s < length py"
      "within_tol px py tol (xi s) (yi s)" "better_ahead px py (xi s) (yi s)"
      "\<not> x_ahead px py (xi s) (yi s)" "i_path s < 0"
      "outer_body px py tol s = Inr s'" "moved s s' 0 1 1" "idx s' = idx s"
      "emitted s \<noteq> []" "emitted s' = butlast (emitted s) @ [(fst (last (emitted s)), int (yi s + 1))]"
  | (y_fresh) s' where "xi s < length px" "yi s < length py"
      "within_tol px py tol (xi s) (yi s)" "better_ahead px py (xi s) (yi s)"
      "\<not> x_ahead px py (xi s) (yi s)" "\<not> i_path s < 0"
      "outer_body px py tol s = Inr s'" "moved s s' 0 1 1" "idx s' = idx s + 1"
      "emitted s' = emitted s @ [(NA_INTEGER, int (yi s + 1))]"
  | (x_alone) s' where "xi s < length px" "yi s < length py"
      "\<not> within_tol px py tol (xi s) (yi s)" "px ! xi s < py ! yi s"
      "outer_body px py tol s = Inr s'" "moved s s' 1 0 0" "idx s' = idx s + 1"
      "emitted s' = emitted s @ [(int (xi s + 1), NA_INTEGER)]"
  | (y_alone) s' where "xi s < length px" "yi s < length py"
      "\<not> within_tol px py tol (xi s) (yi s)" "\<not> px ! xi s < py ! yi s"
      "outer_body px py tol s = Inr s'" "moved s s' 0 1 0" "idx s' = idx s + 1"
      "emitted s' = emitted s @ [(NA_INTEGER, int (yi s + 1))]"
proof -
  have R: "room s" and i0: "- 1 \<le> idx s" and i1: "idx s + 1 < int (length (presx s))"
    and len: "length (presy s) = length (presx s)" and ip: "i_path s \<noteq> 0 \<Longrightarrow> 0 \<le> idx s"
    using B C by (auto simp: outer_bounds_def room_def)
  have T: "xi s < length px \<Longrightarrow> xi s < length tol"
    using B by (simp add: outer_bounds_def)
  note app = emitted_append [OF i0 i1 len]
  consider (a) "length px \<le> xi s" | (b) "xi s < length px" "length py \<le> yi s"
    | (c) "xi s < length px" "yi s < length py" by linarith
  then show thesis
  proof cases
    case a
    then have y: "yi s < length py" using C by simp
    show thesis
      by (rule drain_y [OF a y body_drain_y [OF R a]]) (simp_all add: moved_def app)
  next
    case b
    show thesis
      by (rule drain_x [OF b body_drain_x [OF R b]]) (simp_all add: moved_def app)
  next
    case c
    note t = T [OF c(1)]
    show thesis
    proof (cases "within_tol px py tol (xi s) (yi s)")
      case False
      show thesis
      proof (cases "px ! xi s < py ! yi s")
        case True
        show thesis
          by (rule x_alone [OF c False True body_x_alone [OF R c t False True]])
             (simp_all add: moved_def app)
      next
        case F2: False
        show thesis
          by (rule y_alone [OF c False F2 body_y_alone [OF R c t False F2]])
             (simp_all add: moved_def app)
      qed
    next
      case True
      note w = True
      show thesis
      proof (cases "better_ahead px py (xi s) (yi s)")
        case False
        show thesis
          by (rule accept [OF c w False body_accept [OF R c t w False]])
             (simp_all add: moved_def app)
      next
        case True
        note ba = True
        show thesis
        proof (cases "x_ahead px py (xi s) (yi s)")
          case True
          note xa = True
          show thesis
          proof (cases "0 < i_path s")
            case True
            then have i2: "0 \<le> idx s" using ip by simp
            note bd = body_x_retro [OF R c t w ba xa True i2]
            have e: "emitted s \<noteq> [] \<and>
                emitted (s\<lparr>xi := xi s + 1,
                  presx := (presx s)[nat (idx s + 1) := int (xi s + 1), nat (idx s) := int (xi s + 1)],
                  presy := (presy s)[nat (idx s + 1) := int (yi s + 1)], i_path := - 1\<rparr>)
                = butlast (emitted s) @ [(int (xi s + 1), snd (last (emitted s)))]"
              by (rule emitted_retro_x [OF i2 i1 len]) simp_all
            show thesis
              by (rule x_retro [OF c w ba xa True bd]) (use e in \<open>simp_all add: moved_def\<close>)
          next
            case False
            show thesis
              by (rule x_fresh [OF c w ba xa False body_x_fresh [OF R c t w ba xa False]])
                 (simp_all add: moved_def app)
          qed
        next
          case False
          note xa = False
          show thesis
          proof (cases "i_path s < 0")
            case True
            then have i2: "0 \<le> idx s" using ip by simp
            note bd = body_y_retro [OF R c t w ba xa True i2]
            have e: "emitted s \<noteq> [] \<and>
                emitted (s\<lparr>yi := yi s + 1,
                  presx := (presx s)[nat (idx s + 1) := int (xi s + 1)],
                  presy := (presy s)[nat (idx s + 1) := int (yi s + 1), nat (idx s) := int (yi s + 1)],
                  i_path := 1\<rparr>)
                = butlast (emitted s) @ [(fst (last (emitted s)), int (yi s + 1))]"
              by (rule emitted_retro_y [OF i2 i1 len]) simp_all
            show thesis
              by (rule y_retro [OF c w ba xa True bd]) (use e in \<open>simp_all add: moved_def\<close>)
          next
            case False
            show thesis
              by (rule y_fresh [OF c w ba xa False body_y_fresh [OF R c t w ba xa False]])
                 (simp_all add: moved_def app)
          qed
        qed
      qed
    qed
  qed
qed


lemma outer_body_total:
  assumes "outer_bounds px py tol s" "xi s < length px \<or> yi s < length py"
  shows "\<exists>s'. outer_body px py tol s = Inr s'"
  using assms by (cases rule: outer_body_cases) blast+

lemma outer_bounds_step:
  assumes "outer_bounds px py tol s" "xi s < length px \<or> yi s < length py"
    "outer_body px py tol s = Inr s'"
  shows "outer_bounds px py tol s'"
  using assms(1,2)
proof (cases rule: outer_body_cases)
  case (drain_y t) with assms show ?thesis by (auto simp: outer_bounds_def moved_def)
next
  case (drain_x t) with assms show ?thesis by (auto simp: outer_bounds_def moved_def)
next
  case (accept t) with assms show ?thesis by (auto simp: outer_bounds_def moved_def)
next
  case (x_retro t) with assms show ?thesis by (auto simp: outer_bounds_def moved_def)
next
  case (x_fresh t) with assms show ?thesis by (auto simp: outer_bounds_def moved_def)
next
  case (y_retro t) with assms show ?thesis by (auto simp: outer_bounds_def moved_def)
next
  case (y_fresh t) with assms show ?thesis by (auto simp: outer_bounds_def moved_def)
next
  case (x_alone t) with assms show ?thesis by (auto simp: outer_bounds_def moved_def)
next
  case (y_alone t) with assms show ?thesis by (auto simp: outer_bounds_def moved_def)
qed

text \<open>
  Soundness of a row as the scans establish it: both indices are valid 1-based positions
  and the pair passed the test \<^verbatim>\<open>idiff <= tol[xi]\<close> on the computed distance.
\<close>

definition row_sound :: "real list \<Rightarrow> real list \<Rightarrow> real list \<Rightarrow> int \<Rightarrow> int \<times> int \<Rightarrow> bool" where
  "row_sound left right tolerance sentinel r \<longleftrightarrow>
     (let i = fst r; j = snd r in
      i = sentinel \<or> j = sentinel \<or>
      (1 \<le> i \<and> i \<le> int (length left) \<and> 1 \<le> j \<and> j \<le> int (length right) \<and>
       within_tol left right tolerance (nat (i - 1)) (nat (j - 1))))"

definition outer_sound :: "real list \<Rightarrow> real list \<Rightarrow> real list \<Rightarrow> outer_state \<Rightarrow> bool" where
  "outer_sound px py tol s \<longleftrightarrow>
     (\<forall>r \<in> set (emitted s). row_sound px py tol NA_INTEGER r) \<and>
     (xi s < length px \<and> yi s < length py \<and> 0 < i_path s \<longrightarrow>
        emitted s \<noteq> [] \<and> snd (last (emitted s)) = int (yi s) \<and> 1 \<le> yi s \<and>
        within_tol px py tol (xi s) (yi s - 1)) \<and>
     (xi s < length px \<and> yi s < length py \<and> i_path s < 0 \<longrightarrow>
        emitted s \<noteq> [] \<and> fst (last (emitted s)) = int (xi s) \<and> 1 \<le> xi s \<and>
        within_tol px py tol (xi s - 1) (yi s))"

lemma row_sound_sentinel [simp]:
  "row_sound px py tol na (na, b)" "row_sound px py tol na (a, na)"
  by (simp_all add: row_sound_def)

lemma row_sound_pair:
  assumes "i < length px" "j < length py" "within_tol px py tol i j"
  shows "row_sound px py tol na (int (i + 1), int (j + 1))"
  using assms by (simp add: row_sound_def)

lemma outer_sound_step:
  assumes S: "outer_sound px py tol s" and B: "outer_bounds px py tol s"
    and C: "xi s < length px \<or> yi s < length py"
    and E: "outer_body px py tol s = Inr s'"
  shows "outer_sound px py tol s'"
  using B C
proof (cases rule: outer_body_cases)
  case (drain_y t)
  with S E show ?thesis by (auto simp: outer_sound_def moved_def)
next
  case (drain_x t)
  with S E show ?thesis by (auto simp: outer_sound_def moved_def)
next
  case (accept t)
  with S E row_sound_pair [of "xi s" px "yi s" py tol NA_INTEGER]
  show ?thesis by (auto simp: outer_sound_def moved_def idiff_at_def)
next
  case (x_fresh t)
  with S E show ?thesis by (auto simp: outer_sound_def moved_def idiff_at_def)
next
  case (y_fresh t)
  with S E show ?thesis by (auto simp: outer_sound_def moved_def idiff_at_def)
next
  case (x_alone t)
  with S E show ?thesis by (auto simp: outer_sound_def moved_def)
next
  case (y_alone t)
  with S E show ?thesis by (auto simp: outer_sound_def moved_def)
next
  case (x_retro t)
  from S x_retro(1,2,6) have p: "snd (last (emitted s)) = int (yi s)" "1 \<le> yi s"
    "within_tol px py tol (xi s) (yi s - 1)"
    by (auto simp: outer_sound_def)
  have "row_sound px py tol NA_INTEGER (int (xi s + 1), int (yi s - 1 + 1))"
    using x_retro(1,2) p(2,3) by (intro row_sound_pair) auto
  then have r: "row_sound px py tol NA_INTEGER (int (xi s + 1), snd (last (emitted s)))"
    using p(1,2) by simp
  have old: "\<forall>r \<in> set (butlast (emitted s)). row_sound px py tol NA_INTEGER r"
    using S by (auto simp: outer_sound_def dest: in_set_butlastD)
  from x_retro E have t: "t = s'" by simp
  show ?thesis
    using r old x_retro(3,8,11) unfolding t
    by (auto simp: outer_sound_def moved_def idiff_at_def)
next
  case (y_retro t)
  from S y_retro(1,2,6) have p: "fst (last (emitted s)) = int (xi s)" "1 \<le> xi s"
    "within_tol px py tol (xi s - 1) (yi s)"
    by (auto simp: outer_sound_def)
  have "row_sound px py tol NA_INTEGER (int (xi s - 1 + 1), int (yi s + 1))"
    using y_retro(1,2) p(2,3) by (intro row_sound_pair) auto
  then have r: "row_sound px py tol NA_INTEGER (fst (last (emitted s)), int (yi s + 1))"
    using p(1,2) by simp
  have old: "\<forall>r \<in> set (butlast (emitted s)). row_sound px py tol NA_INTEGER r"
    using S by (auto simp: outer_sound_def dest: in_set_butlastD)
  from y_retro E have t: "t = s'" by simp
  show ?thesis
    using r old y_retro(3,8,11) unfolding t
    by (auto simp: outer_sound_def moved_def idiff_at_def)
qed


definition nondecreasing :: "int \<Rightarrow> int list \<Rightarrow> bool" where
  "nondecreasing sentinel col \<longleftrightarrow> sorted (filter (\<lambda>v. v \<noteq> sentinel) col)"

lemma nondecreasing_snoc:
  assumes "nondecreasing na col" "v = na \<or> (\<forall>a \<in> set col. a \<le> v)"
  shows "nondecreasing na (col @ [v])"
  using assms by (auto simp: nondecreasing_def sorted_append)

lemma nondecreasing_butlast:
  assumes "nondecreasing na col"
  shows "nondecreasing na (butlast col)"
proof (cases "col = []")
  case False
  then have "col = butlast col @ [last col]" by simp
  then have "nondecreasing na (butlast col @ [last col])" using assms by simp
  then show ?thesis by (auto simp: nondecreasing_def sorted_append split: if_splits)
qed (simp add: nondecreasing_def)

definition outer_mono :: "outer_state \<Rightarrow> bool" where
  "outer_mono s \<longleftrightarrow>
     nondecreasing NA_INTEGER (map fst (emitted s)) \<and>
     nondecreasing NA_INTEGER (map snd (emitted s)) \<and>
     (\<forall>r \<in> set (emitted s). fst r \<le> int (xi s) \<and> snd r \<le> int (yi s))"

lemma NA_INTEGER_le_nat [simp]: "NA_INTEGER \<le> int n"
  by (simp add: NA_INTEGER_def)

lemma outer_mono_append:
  assumes "outer_mono s" "emitted s' = emitted s @ [(a, b)]"
    "a = NA_INTEGER \<and> xi s' = xi s \<or> a = int (xi s + 1) \<and> xi s' = xi s + 1"
    "b = NA_INTEGER \<and> yi s' = yi s \<or> b = int (yi s + 1) \<and> yi s' = yi s + 1"
  shows "outer_mono s'"
proof -
  have old: "\<forall>r \<in> set (emitted s). fst r \<le> int (xi s) \<and> snd r \<le> int (yi s)"
    using assms(1) by (simp add: outer_mono_def)
  have 1: "nondecreasing NA_INTEGER (map fst (emitted s) @ [a])"
    using assms(1,3) old by (intro nondecreasing_snoc) (auto simp: outer_mono_def)
  have 2: "nondecreasing NA_INTEGER (map snd (emitted s) @ [b])"
    using assms(1,4) old by (intro nondecreasing_snoc) (auto simp: outer_mono_def)
  have 3: "\<forall>r \<in> set (emitted s @ [(a, b)]). fst r \<le> int (xi s') \<and> snd r \<le> int (yi s')"
    using old assms(3,4) by auto
  show ?thesis
    unfolding outer_mono_def assms(2) using 1 2 3 by simp
qed

lemma outer_mono_retro_x:
  assumes "outer_mono s" "emitted s \<noteq> []"
    "emitted s' = butlast (emitted s) @ [(int (xi s + 1), snd (last (emitted s)))]"
    "xi s' = xi s + 1" "yi s' = yi s"
  shows "outer_mono s'"
proof -
  obtain rows a0 b0 where e: "emitted s = rows @ [(a0, b0)]"
    using assms(2) by (metis rev_exhaust surj_pair)
  have e': "emitted s' = rows @ [(int (xi s + 1), b0)]"
    using assms(3) e by simp
  have old: "\<forall>r \<in> set (emitted s). fst r \<le> int (xi s) \<and> snd r \<le> int (yi s)"
    using assms(1) by (simp add: outer_mono_def)
  have "nondecreasing NA_INTEGER (butlast (map fst (emitted s)))"
    using assms(1) by (intro nondecreasing_butlast) (simp add: outer_mono_def)
  then have "nondecreasing NA_INTEGER (map fst rows)" using e by simp
  then have 1: "nondecreasing NA_INTEGER (map fst rows @ [int (xi s + 1)])"
    using old e by (intro nondecreasing_snoc) auto
  have 2: "nondecreasing NA_INTEGER (map snd rows @ [b0])"
    using assms(1) e by (simp add: outer_mono_def)
  have 3: "\<forall>r \<in> set (rows @ [(int (xi s + 1), b0)]). fst r \<le> int (xi s') \<and> snd r \<le> int (yi s')"
    using old e assms(4,5) by auto
  show ?thesis
    unfolding outer_mono_def e' using 1 2 3 by simp
qed

lemma outer_mono_retro_y:
  assumes "outer_mono s" "emitted s \<noteq> []"
    "emitted s' = butlast (emitted s) @ [(fst (last (emitted s)), int (yi s + 1))]"
    "xi s' = xi s" "yi s' = yi s + 1"
  shows "outer_mono s'"
proof -
  obtain rows a0 b0 where e: "emitted s = rows @ [(a0, b0)]"
    using assms(2) by (metis rev_exhaust surj_pair)
  have e': "emitted s' = rows @ [(a0, int (yi s + 1))]"
    using assms(3) e by simp
  have old: "\<forall>r \<in> set (emitted s). fst r \<le> int (xi s) \<and> snd r \<le> int (yi s)"
    using assms(1) by (simp add: outer_mono_def)
  have "nondecreasing NA_INTEGER (butlast (map snd (emitted s)))"
    using assms(1) by (intro nondecreasing_butlast) (simp add: outer_mono_def)
  then have "nondecreasing NA_INTEGER (map snd rows)" using e by simp
  then have 2: "nondecreasing NA_INTEGER (map snd rows @ [int (yi s + 1)])"
    using old e by (intro nondecreasing_snoc) auto
  have 1: "nondecreasing NA_INTEGER (map fst rows @ [a0])"
    using assms(1) e by (simp add: outer_mono_def)
  have 3: "\<forall>r \<in> set (rows @ [(a0, int (yi s + 1))]). fst r \<le> int (xi s') \<and> snd r \<le> int (yi s')"
    using old e assms(4,5) by auto
  show ?thesis
    unfolding outer_mono_def e' using 1 2 3 by simp
qed

lemma outer_mono_step:
  assumes M: "outer_mono s" and B: "outer_bounds px py tol s"
    and C: "xi s < length px \<or> yi s < length py"
    and E: "outer_body px py tol s = Inr s'"
  shows "outer_mono s'"
  using B C
proof (cases rule: outer_body_cases)
  case (drain_y t)
  with E have "t = s'" by simp
  with drain_y show ?thesis by (intro outer_mono_append [OF M]) (auto simp: moved_def)
next
  case (drain_x t)
  with E have "t = s'" by simp
  with drain_x show ?thesis by (intro outer_mono_append [OF M]) (auto simp: moved_def)
next
  case (accept t)
  with E have "t = s'" by simp
  with accept show ?thesis by (intro outer_mono_append [OF M]) (auto simp: moved_def)
next
  case (x_fresh t)
  with E have "t = s'" by simp
  with x_fresh show ?thesis by (intro outer_mono_append [OF M]) (auto simp: moved_def)
next
  case (y_fresh t)
  with E have "t = s'" by simp
  with y_fresh show ?thesis by (intro outer_mono_append [OF M]) (auto simp: moved_def)
next
  case (x_alone t)
  with E have "t = s'" by simp
  with x_alone show ?thesis by (intro outer_mono_append [OF M]) (auto simp: moved_def)
next
  case (y_alone t)
  with E have "t = s'" by simp
  with y_alone show ?thesis by (intro outer_mono_append [OF M]) (auto simp: moved_def)
next
  case (x_retro t)
  with E have "t = s'" by simp
  with x_retro show ?thesis by (intro outer_mono_retro_x [OF M]) (auto simp: moved_def)
next
  case (y_retro t)
  with E have "t = s'" by simp
  with y_retro show ?thesis by (intro outer_mono_retro_y [OF M]) (auto simp: moved_def)
qed


lemma outer_loop_rule:
  assumes "I s"
    and "\<And>s. I s \<Longrightarrow> xi s < length px \<or> yi s < length py \<Longrightarrow>
           \<exists>s'. outer_body px py tol s = Inr s' \<and> I s'"
  shows "\<exists>s'. outer_loop px py tol s = Inr s' \<and> I s' \<and> \<not> (xi s' < length px \<or> yi s' < length py)"
  using assms
proof (induction px py tol s rule: outer_loop.induct)
  case (1 px py tol s)
  note step = "1.prems"(2)
  show ?case
  proof (cases "xi s < length px \<or> yi s < length py")
    case True
    from step [OF "1.prems"(1) True] obtain s' where s': "outer_body px py tol s = Inr s'" "I s'"
      by blast
    from "1.IH" [OF True s'(1) s'(2) step] show ?thesis
      using True s'(1) by (simp del: outer_loop.simps add: outer_loop.simps [of px py tol s])
  next
    case False
    then show ?thesis using "1.prems"(1)
      by (simp del: outer_loop.simps add: outer_loop.simps [of px py tol s])
  qed
qed

definition outer_inv :: "real list \<Rightarrow> real list \<Rightarrow> real list \<Rightarrow> outer_state \<Rightarrow> bool" where
  "outer_inv px py tol s \<longleftrightarrow> outer_bounds px py tol s \<and> outer_sound px py tol s \<and> outer_mono s"

lemma emitted_init [simp]: "emitted (outer_init n) = []"
  by (simp add: emitted_def outer_init_def)

lemma outer_inv_init:
  assumes "length tol = length px"
  shows "outer_inv px py tol (outer_init (length px + length py))"
  using assms
  by (simp add: outer_inv_def outer_bounds_def outer_sound_def outer_mono_def nondecreasing_def)
     (simp add: outer_init_def)

lemma outer_inv_step:
  assumes "outer_inv px py tol s" "xi s < length px \<or> yi s < length py"
  shows "\<exists>s'. outer_body px py tol s = Inr s' \<and> outer_inv px py tol s'"
proof -
  from assms have B: "outer_bounds px py tol s" by (simp add: outer_inv_def)
  from outer_body_total [OF B assms(2)] obtain s' where E: "outer_body px py tol s = Inr s'" ..
  have "outer_inv px py tol s'"
    unfolding outer_inv_def
    using outer_bounds_step [OF B assms(2) E] outer_sound_step [OF _ B assms(2) E]
      outer_mono_step [OF _ B assms(2) E] assms(1)
    by (simp add: outer_inv_def)
  with E show ?thesis by blast
qed

lemma emitted_columns:
  assumes "outer_bounds px py tol s"
  shows "map fst (emitted s) = take (nat (idx s + 1)) (presx s)"
    and "map snd (emitted s) = take (nat (idx s + 1)) (presy s)"
    and "length (emitted s) = nat (idx s + 1)"
  using assms by (auto simp: emitted_def outer_bounds_def)

lemma C_join_outer_emitted:
  assumes "length tol = length px"
  obtains s where "C_join_outer px py tol = Inr (map fst (emitted s), map snd (emitted s))"
    "outer_inv px py tol s" "xi s = length px" "yi s = length py"
proof -
  from outer_loop_rule [where I = "outer_inv px py tol", OF outer_inv_init [OF assms] outer_inv_step]
  obtain s where s: "outer_loop px py tol (outer_init (length px + length py)) = Inr s"
    "outer_inv px py tol s" "\<not> (xi s < length px \<or> yi s < length py)"
    by blast
  then have B: "outer_bounds px py tol s" by (simp add: outer_inv_def)
  then have n: "0 \<le> idx s + 1" "idx s + 1 \<le> int (length (presx s))" "idx s + 1 \<le> int (length (presy s))"
    by (auto simp: outer_bounds_def)
  have "C_join_outer px py tol = Inr (take (nat (idx s + 1)) (presx s), take (nat (idx s + 1)) (presy s))"
    using assms s(1) n by (simp add: C_join_outer_def Let_def)
  then have 1: "C_join_outer px py tol = Inr (map fst (emitted s), map snd (emitted s))"
    by (simp add: emitted_columns [OF B])
  have 2: "xi s = length px" "yi s = length py"
    using s(3) B by (auto simp: outer_bounds_def)
  show thesis by (rule that [OF 1 s(2) 2])
qed

lemma outer_iterations_bound:
  assumes "outer_bounds px py tol s"
  shows "outer_iterations px py tol s + (xi s + yi s) \<le> length px + length py"
  using assms
proof (induction px py tol s rule: outer_iterations.induct)
  case (1 px py tol s)
  show ?case
  proof (cases "xi s < length px \<or> yi s < length py")
    case True
    from outer_body_total [OF "1.prems" True] obtain s' where E: "outer_body px py tol s = Inr s'" ..
    note B' = outer_bounds_step [OF "1.prems" True E]
    have adv: "xi s + yi s < xi s' + yi s'"
      using outer_body_advances [OF E True] B' "1.prems" by (auto simp: outer_bounds_def)
    from "1.IH" [OF True E B'] adv True E show ?thesis
      by (simp del: outer_iterations.simps add: outer_iterations.simps [of px py tol s])
  next
    case False
    with "1.prems" show ?thesis
      by (simp del: outer_iterations.simps add: outer_iterations.simps [of px py tol s] outer_bounds_def)
  qed
qed

lemma outer_body_moves_cursor:
  assumes "outer_body px py tol s = Inr s'"
  shows "xi s \<le> xi s' \<and> yi s \<le> yi s' \<and> xi s + yi s < xi s' + yi s'"
  using assms
  by (auto simp: outer_body_def Let_def seq_def put_presx_def put_presy_def store_def
      split: if_splits sum.splits)

section \<open>Properties of the left join\<close>

definition left_bounds :: "real list \<Rightarrow> real list \<Rightarrow> real list \<Rightarrow> left_state \<Rightarrow> bool" where
  "left_bounds px py tol s \<longleftrightarrow>
     length tol = length px \<and> length (presx s) = length px \<and> length (presy s) = length px \<and>
     xi s \<le> length px \<and> yi s \<le> length py \<and>
     (yi_last_used s = - 1 \<or>
      (0 \<le> yi_last_used s \<and> 0 \<le> xi_last_used s \<and> xi_last_used s \<le> int (xi s)))"

definition left_moved :: "left_state \<Rightarrow> left_state \<Rightarrow> bool" where
  "left_moved s s' \<longleftrightarrow>
     (xi s' = xi s + 1 \<and> yi s' = yi s) \<or> (xi s' = xi s \<and> yi s' = yi s + 1) \<or>
     (xi s' = xi s + 1 \<and> yi s' = yi s + 1)"

definition retracts :: "real list \<Rightarrow> real list \<Rightarrow> left_state \<Rightarrow> bool" where
  "retracts px py s \<longleftrightarrow>
     int (yi s) = yi_last_used s \<and> int (xi s) > xi_last_used s \<and>
     (dist_less (idiff_at px py (xi s) (yi s)) (ydiff_at px py (xi s) (yi s)) \<or>
      dist_less (xdiff_at px py (xi s) (yi s)) (ydiff_at px py (xi s) (yi s)))"

lemmas left_defs = left_body_def Let_def seq_def put_presx_def put_presy_def store_def
  left_bounds_def left_moved_def retracts_def xdiff_at_def ydiff_at_def idiff_at_def within_tol_def

lemma left_body_drain:
  assumes "left_bounds px py tol s" "xi s < length px" "length py \<le> yi s"
  shows "left_body px py tol s = Inr (s\<lparr>xi := xi s + 1, presx := (presx s)[xi s := int (xi s + 1)],
           presy := (presy s)[xi s := NA_INTEGER]\<rparr>)"
  using assms by (auto simp: left_defs split: if_splits)

lemma left_body_nomatch:
  assumes "left_bounds px py tol s" "xi s < length px" "yi s < length py"
    "\<not> within_tol px py tol (xi s) (yi s)"
  shows "\<exists>s'. left_body px py tol s = Inr s' \<and> left_moved s s' \<and>
           presx s' = (presx s)[xi s := int (xi s + 1)] \<and> presy s' = (presy s)[xi s := NA_INTEGER] \<and>
           yi_last_used s' = yi_last_used s \<and> xi_last_used s' = xi_last_used s"
  using assms by (auto simp: left_defs split: if_splits)

lemma left_body_match:
  assumes "left_bounds px py tol s" "xi s < length px" "yi s < length py"
    "within_tol px py tol (xi s) (yi s)" "\<not> retracts px py s"
  shows "\<exists>s'. left_body px py tol s = Inr s' \<and> left_moved s s' \<and>
           presx s' = (presx s)[xi s := int (xi s + 1)] \<and> presy s' = (presy s)[xi s := int (yi s + 1)] \<and>
           yi_last_used s' = int (yi s) \<and> xi_last_used s' = int (xi s)"
  using assms by (auto simp: left_defs split: if_splits)

lemma left_body_retract:
  assumes "left_bounds px py tol s" "xi s < length px" "yi s < length py"
    "within_tol px py tol (xi s) (yi s)" "retracts px py s"
  shows "\<exists>s'. left_body px py tol s = Inr s' \<and> left_moved s s' \<and>
           presx s' = (presx s)[xi s := int (xi s + 1)] \<and>
           presy s' = (presy s)[xi s := int (yi s + 1), nat (xi_last_used s) := NA_INTEGER] \<and>
           yi_last_used s' = int (yi s) \<and> xi_last_used s' = int (xi s)"
  using assms by (auto simp: left_defs split: if_splits)


lemma left_body_cases [consumes 2, case_names drain nomatch match retract]:
  assumes B: "left_bounds px py tol s" and C: "xi s < length px"
  obtains
    (drain) s' where "left_body px py tol s = Inr s'" "xi s' = xi s + 1" "yi s' = yi s"
      "presx s' = (presx s)[xi s := int (xi s + 1)]" "presy s' = (presy s)[xi s := NA_INTEGER]"
      "yi_last_used s' = yi_last_used s" "xi_last_used s' = xi_last_used s"
  | (nomatch) s' where "yi s < length py" "left_body px py tol s = Inr s'" "left_moved s s'"
      "presx s' = (presx s)[xi s := int (xi s + 1)]" "presy s' = (presy s)[xi s := NA_INTEGER]"
      "yi_last_used s' = yi_last_used s" "xi_last_used s' = xi_last_used s"
  | (match) s' where "yi s < length py" "within_tol px py tol (xi s) (yi s)"
      "left_body px py tol s = Inr s'" "left_moved s s'"
      "presx s' = (presx s)[xi s := int (xi s + 1)]" "presy s' = (presy s)[xi s := int (yi s + 1)]"
      "yi_last_used s' = int (yi s)" "xi_last_used s' = int (xi s)"
  | (retract) s' where "yi s < length py" "within_tol px py tol (xi s) (yi s)"
      "0 \<le> xi_last_used s" "xi_last_used s < int (xi s)"
      "left_body px py tol s = Inr s'" "left_moved s s'"
      "presx s' = (presx s)[xi s := int (xi s + 1)]"
      "presy s' = (presy s)[xi s := int (yi s + 1), nat (xi_last_used s) := NA_INTEGER]"
      "yi_last_used s' = int (yi s)" "xi_last_used s' = int (xi s)"
proof (cases "yi s < length py")
  case False
  then have d: "length py \<le> yi s" by simp
  show thesis by (rule drain [OF left_body_drain [OF B C d]]) simp_all
next
  case y: True
  show thesis
  proof (cases "within_tol px py tol (xi s) (yi s)")
    case False
    from left_body_nomatch [OF B C y False] show thesis using nomatch [OF y] by blast
  next
    case m: True
    show thesis
    proof (cases "retracts px py s")
      case False
      from left_body_match [OF B C y m False] show thesis using match [OF y m] by blast
    next
      case True
      then have "0 \<le> xi_last_used s" "xi_last_used s < int (xi s)"
        using B by (auto simp: retracts_def left_bounds_def)
      with left_body_retract [OF B C y m True] show thesis using retract [OF y m] by blast
    qed
  qed
qed

lemma left_body_total:
  assumes "left_bounds px py tol s" "xi s < length px"
  shows "\<exists>s'. left_body px py tol s = Inr s'"
  using assms by (cases rule: left_body_cases) blast+

lemma left_bounds_step:
  assumes "left_bounds px py tol s" "xi s < length px" "left_body px py tol s = Inr s'"
  shows "left_bounds px py tol s'"
  using assms(1,2)
proof (cases rule: left_body_cases)
  case (drain t) with assms show ?thesis by (auto simp: left_bounds_def)
next
  case (nomatch t) with assms show ?thesis by (auto simp: left_bounds_def left_moved_def)
next
  case (match t) with assms show ?thesis by (auto simp: left_bounds_def left_moved_def)
next
  case (retract t) with assms show ?thesis by (auto simp: left_bounds_def left_moved_def)
qed


text \<open>The rows below the left cursor are final up to a later retraction.\<close>

definition rows_ok :: "real list \<Rightarrow> real list \<Rightarrow> real list \<Rightarrow> nat \<Rightarrow> nat \<Rightarrow> int list \<Rightarrow> int list \<Rightarrow> bool" where
  "rows_ok px py tol i j bx by \<longleftrightarrow>
     (\<forall>k < i. bx ! k = int k + 1) \<and>
     (\<forall>k < i. row_sound px py tol NA_INTEGER (int k + 1, by ! k)) \<and>
     (\<forall>k < i. by ! k \<le> int j + 1) \<and>
     nondecreasing NA_INTEGER (take i by)"

definition row_pending :: "real list \<Rightarrow> real list \<Rightarrow> real list \<Rightarrow> nat \<Rightarrow> nat \<Rightarrow> int list \<Rightarrow> int list \<Rightarrow> bool" where
  "row_pending px py tol i j bx by \<longleftrightarrow>
     bx ! i = int i + 1 \<and> row_sound px py tol NA_INTEGER (int i + 1, by ! i) \<and>
     (by ! i = NA_INTEGER \<or> by ! i = int j + 1)"

lemma nondecreasing_update_sentinel:
  assumes "nondecreasing na col"
  shows "nondecreasing na (col[k := na])"
proof (cases "k < length col")
  case True
  then have c: "col = take k col @ col ! k # drop (Suc k) col"
    by (simp add: id_take_nth_drop)
  have u: "col[k := na] = take k col @ na # drop (Suc k) col"
    using True by (simp add: upd_conv_take_nth_drop)
  have "sorted (filter (\<lambda>v. v \<noteq> na) (take k col @ col ! k # drop (Suc k) col))"
    using assms c by (simp add: nondecreasing_def)
  then have "sorted (filter (\<lambda>v. v \<noteq> na) (take k col @ na # drop (Suc k) col))"
    by (auto simp: sorted_append split: if_splits)
  then show ?thesis unfolding u nondecreasing_def .
next
  case False
  then have "col[k := na] = col" by (simp add: list_update_beyond)
  with assms show ?thesis by simp
qed

lemma row_sound_match:
  assumes "i < length px" "j < length py" "within_tol px py tol i j"
  shows "row_sound px py tol na (int i + 1, int j + 1)"
  using assms by (simp add: row_sound_def)

lemma rows_ok_write:
  assumes "rows_ok px py tol i j bx by" "i < length bx" "i < length by"
    "v = NA_INTEGER \<or> (v = int (j + 1) \<and> i < length px \<and> j < length py \<and> within_tol px py tol i j)"
  shows "rows_ok px py tol i j (bx[i := int (i + 1)]) (by[i := v]) \<and>
         row_pending px py tol i j (bx[i := int (i + 1)]) (by[i := v])"
proof -
  have "row_sound px py tol NA_INTEGER (int i + 1, v)"
    using assms(4) row_sound_match [of i px j py tol NA_INTEGER] by (auto simp: add.commute)
  then show ?thesis
    using assms by (auto simp: rows_ok_def row_pending_def)
qed

lemma rows_ok_retract:
  assumes "rows_ok px py tol i j bx by \<and> row_pending px py tol i j bx by" "r < i" "i < length by"
  shows "rows_ok px py tol i j bx (by[r := NA_INTEGER]) \<and>
         row_pending px py tol i j bx (by[r := NA_INTEGER])"
proof -
  have "nondecreasing NA_INTEGER (take i (by[r := NA_INTEGER]))"
    using assms nondecreasing_update_sentinel [of NA_INTEGER "take i by" r]
    by (simp add: rows_ok_def take_update_swap)
  then show ?thesis
    using assms by (auto simp: rows_ok_def row_pending_def nth_list_update NA_INTEGER_def)
qed

lemma rows_ok_advance:
  assumes "rows_ok px py tol i j bx by \<and> row_pending px py tol i j bx by" "i < length by"
    "i' = i \<or> i' = i + 1" "j' = j \<or> j' = j + 1"
  shows "rows_ok px py tol i' j' bx by"
proof -
  have o: "rows_ok px py tol i j bx by" and p: "row_pending px py tol i j bx by"
    using assms(1) by simp_all
  have 1: "rows_ok px py tol i j' bx by"
    using o assms(4) by (fastforce simp: rows_ok_def)
  show ?thesis
  proof (cases "i' = i")
    case True with 1 show ?thesis by simp
  next
    case False
    with assms(3) have i': "i' = Suc i" by simp
    have t: "take (Suc i) by = take i by @ [by ! i]"
      using assms(2) by (simp add: take_Suc_conv_app_nth)
    have le: "\<forall>a \<in> set (take i by). a \<le> int j + 1"
      using o assms(2) by (auto simp: rows_ok_def in_set_conv_nth)
    have "by ! i = NA_INTEGER \<or> (\<forall>a \<in> set (take i by). a \<le> by ! i)"
      using p le by (auto simp: row_pending_def)
    then have n: "nondecreasing NA_INTEGER (take (Suc i) by)"
      unfolding t using o by (intro nondecreasing_snoc) (simp_all add: rows_ok_def)
    have b: "by ! i \<le> int j' + 1"
      using p assms(4) by (auto simp: row_pending_def NA_INTEGER_def)
    show ?thesis
      unfolding i' rows_ok_def
      using 1 p n b by (auto simp: rows_ok_def row_pending_def less_Suc_eq)
  qed
qed

definition left_inv :: "real list \<Rightarrow> real list \<Rightarrow> real list \<Rightarrow> left_state \<Rightarrow> bool" where
  "left_inv px py tol s \<longleftrightarrow>
     left_bounds px py tol s \<and> rows_ok px py tol (xi s) (yi s) (presx s) (presy s)"

lemma left_moved_cases:
  assumes "left_moved s s'"
  shows "(xi s' = xi s \<or> xi s' = xi s + 1) \<and> (yi s' = yi s \<or> yi s' = yi s + 1)"
  using assms by (auto simp: left_moved_def)

lemma left_inv_step:
  assumes I: "left_inv px py tol s" and C: "xi s < length px"
  shows "\<exists>s'. left_body px py tol s = Inr s' \<and> left_inv px py tol s'"
proof -
  from I have B: "left_bounds px py tol s"
    and R: "rows_ok px py tol (xi s) (yi s) (presx s) (presy s)"
    by (simp_all add: left_inv_def)
  from B C have len: "xi s < length (presx s)" "xi s < length (presy s)"
    by (simp_all add: left_bounds_def)
  from B C show ?thesis
  proof (cases rule: left_body_cases)
    case (drain t)
    note B' = left_bounds_step [OF B C drain(1)]
    have "rows_ok px py tol (xi s) (yi s) (presx t) (presy t) \<and>
          row_pending px py tol (xi s) (yi s) (presx t) (presy t)"
      unfolding drain(4,5) using rows_ok_write [OF R len, of NA_INTEGER] by simp
    then have "rows_ok px py tol (xi t) (yi t) (presx t) (presy t)"
      using len drain by (intro rows_ok_advance [where i = "xi s" and j = "yi s"]) simp_all
    with B' drain(1) show ?thesis by (auto simp: left_inv_def)
  next
    case (nomatch t)
    note B' = left_bounds_step [OF B C nomatch(2)]
    have "rows_ok px py tol (xi s) (yi s) (presx t) (presy t) \<and>
          row_pending px py tol (xi s) (yi s) (presx t) (presy t)"
      unfolding nomatch(4,5) using rows_ok_write [OF R len, of NA_INTEGER] by simp
    then have "rows_ok px py tol (xi t) (yi t) (presx t) (presy t)"
      using len nomatch left_moved_cases [OF nomatch(3)]
      by (intro rows_ok_advance [where i = "xi s" and j = "yi s"]) simp_all
    with B' nomatch(2) show ?thesis by (auto simp: left_inv_def)
  next
    case (match t)
    note B' = left_bounds_step [OF B C match(3)]
    have "rows_ok px py tol (xi s) (yi s) (presx t) (presy t) \<and>
          row_pending px py tol (xi s) (yi s) (presx t) (presy t)"
      unfolding match(5,6) using rows_ok_write [OF R len, of "int (yi s + 1)"] C match(1,2)
      by (simp add: idiff_at_def)
    then have "rows_ok px py tol (xi t) (yi t) (presx t) (presy t)"
      using len match left_moved_cases [OF match(4)]
      by (intro rows_ok_advance [where i = "xi s" and j = "yi s"]) simp_all
    with B' match(3) show ?thesis by (auto simp: left_inv_def)
  next
    case (retract t)
    note B' = left_bounds_step [OF B C retract(5)]
    have r: "nat (xi_last_used s) < xi s" using retract(3,4) by simp
    have "rows_ok px py tol (xi s) (yi s) ((presx s)[xi s := int (xi s + 1)]) ((presy s)[xi s := int (yi s + 1)]) \<and>
          row_pending px py tol (xi s) (yi s) ((presx s)[xi s := int (xi s + 1)]) ((presy s)[xi s := int (yi s + 1)])"
      using rows_ok_write [OF R len, of "int (yi s + 1)"] C retract(1,2)
      by (simp add: idiff_at_def)
    from rows_ok_retract [OF this r] len(2)
    have "rows_ok px py tol (xi s) (yi s) (presx t) (presy t) \<and>
          row_pending px py tol (xi s) (yi s) (presx t) (presy t)"
      unfolding retract(7,8) by simp
    then have "rows_ok px py tol (xi t) (yi t) (presx t) (presy t)"
      using len retract left_moved_cases [OF retract(6)]
      by (intro rows_ok_advance [where i = "xi s" and j = "yi s"]) simp_all
    with B' retract(5) show ?thesis by (auto simp: left_inv_def)
  qed
qed

lemma left_loop_rule:
  assumes "I s"
    and "\<And>s. I s \<Longrightarrow> xi s < length px \<Longrightarrow> \<exists>s'. left_body px py tol s = Inr s' \<and> I s'"
  shows "\<exists>s'. left_loop px py tol s = Inr s' \<and> I s' \<and> \<not> xi s' < length px"
  using assms
proof (induction px py tol s rule: left_loop.induct)
  case (1 px py tol s)
  note step = "1.prems"(2)
  show ?case
  proof (cases "xi s < length px")
    case True
    from step [OF "1.prems"(1) True] obtain s' where s': "left_body px py tol s = Inr s'" "I s'"
      by blast
    from "1.IH" [OF True s'(1) s'(2) step] show ?thesis
      using True s'(1) by (simp del: left_loop.simps add: left_loop.simps [of px py tol s])
  next
    case False
    then show ?thesis using "1.prems"(1)
      by (simp del: left_loop.simps add: left_loop.simps [of px py tol s])
  qed
qed

lemma left_inv_init:
  assumes "length tol = length px"
  shows "left_inv px py tol (left_init u (length px))"
  using assms by (simp add: left_inv_def left_bounds_def rows_ok_def left_init_def nondecreasing_def)

lemma C_join_left_result:
  assumes "length tol = length px"
  obtains rx ry where "C_join_left u px py tol = Inr (rx, ry)"
    "length rx = length px" "length ry = length px"
    "rows_ok px py tol (length px) (length py) rx ry"
proof -
  from left_loop_rule [where I = "left_inv px py tol", OF left_inv_init [OF assms] left_inv_step]
  obtain s where s: "left_loop px py tol (left_init u (length px)) = Inr s"
    "left_inv px py tol s" "\<not> xi s < length px"
    by blast
  then have B: "left_bounds px py tol s" and R: "rows_ok px py tol (xi s) (yi s) (presx s) (presy s)"
    by (simp_all add: left_inv_def)
  have x: "xi s = length px" using s(3) B by (simp add: left_bounds_def)
  have 1: "C_join_left u px py tol = Inr (presx s, presy s)"
    using assms s(1) by (simp add: C_join_left_def)
  have "rows_ok px py tol (length px) (length py) (presx s) (presy s)"
    using R B unfolding x by (fastforce simp: rows_ok_def left_bounds_def)
  then show thesis
    using that [OF 1] B by (simp add: left_bounds_def)
qed

section \<open>Properties of the resolver-based joins\<close>

lemma left2_fill_eq:
  assumes "i \<le> ny" "length px = ny" "\<forall>k < i. px ! k = int k + 1"
  shows "left2_fill ny i px = map (\<lambda>k. int k + 1) [0..<ny]"
  using assms
proof (induction ny i px rule: left2_fill.induct)
  case (1 ny i px)
  show ?case
  proof (cases "i < ny")
    case True
    have "left2_fill ny (i + 1) (px[i := int i + 1]) = map (\<lambda>k. int k + 1) [0..<ny]"
      using True "1.prems" by (intro "1.IH") (auto simp: nth_list_update less_Suc_eq)
    then show ?thesis using True by (subst left2_fill.simps) simp
  next
    case False
    with "1.prems" have "i = ny" by simp
    with "1.prems" have "px = map (\<lambda>k. int k + 1) [0..<ny]"
      by (intro nth_equalityI) auto
    with False show ?thesis by (subst left2_fill.simps) simp
  qed
qed

text \<open>The rows of the left join over a resolver result \<open>ry\<close>.\<close>

definition left_rows :: "int list \<Rightarrow> (int \<times> int) list" where
  "left_rows ry = zip (map (\<lambda>k. int k + 1) [0..<length ry]) ry"

lemma left_rows_columns [simp]:
  "map fst (left_rows ry) = map (\<lambda>k. int k + 1) [0..<length ry]" "map snd (left_rows ry) = ry"
  by (simp_all add: left_rows_def)

lemma C_join_left2_eq:
  "C_join_left2 x y tol nm =
     seq (C_closest_dup_closest x y tol nm)
       (\<lambda>ry. Inr (map (\<lambda>k. int k + 1) [0..<length ry], ry))"
  by (simp add: C_join_left2_def Let_def left2_fill_eq)

text \<open>The compaction loop keeps the rows whose right entry is not the sentinel.\<close>

definition kept :: "int \<Rightarrow> int list \<Rightarrow> nat \<Rightarrow> (int \<times> int) list" where
  "kept nm ry i = filter (\<lambda>r. snd r \<noteq> nm) (zip (map (\<lambda>k. int k + 1) [0..<i]) (take i ry))"

lemma kept_Suc:
  assumes "i < length ry"
  shows "kept nm ry (Suc i) = kept nm ry i @ (if ry ! i \<noteq> nm then [(int i + 1, ry ! i)] else [])"
  using assms by (simp add: kept_def take_Suc_conv_app_nth)

lemma inner2_loop_eq:
  assumes "i \<le> ny" "length py = ny" "length px = ny" "length ry = ny"
    "j = length (kept nm ry i)" "j \<le> i"
    "zip (take j px) (take j py) = kept nm ry i"
    "\<forall>k. i \<le> k \<and> k < ny \<longrightarrow> py ! k = ry ! k"
  shows "case inner2_loop nm ny i j px py of
           (j', px', py') \<Rightarrow> zip (take j' px') (take j' py') = kept nm ry ny \<and>
             j' \<le> ny \<and> length px' = ny \<and> length py' = ny"
  using assms
proof (induction nm ny i j px py rule: inner2_loop.induct)
  case (1 nm ny i j px py)
  show ?case
  proof (cases "i < ny")
    case False
    with "1.prems" have "i = ny" by simp
    with "1.prems" False show ?thesis
      by (subst inner2_loop.simps) simp
  next
    case True
    note i = True
    have ri: "py ! i = ry ! i" using "1.prems"(8) i by simp
    show ?thesis
    proof (cases "py ! i \<noteq> nm")
      case True
      have k: "kept nm ry (Suc i) = kept nm ry i @ [(int i + 1, ry ! i)]"
        using i "1.prems"(4) True ri by (simp add: kept_Suc)
      have jl: "j < length px" "j < length py" using "1.prems" i by simp_all
      have z: "zip (take (Suc j) (px[j := int i + 1])) (take (Suc j) (py[j := py ! i]))
               = zip (take j px) (take j py) @ [(int i + 1, py ! i)]"
        using jl by (rule zip_take_append_row)
      have "case inner2_loop nm ny (i + 1) (j + 1) (px[j := int i + 1]) (py[j := py ! i]) of
           (j', px', py') \<Rightarrow> zip (take j' px') (take j' py') = kept nm ry ny \<and>
             j' \<le> ny \<and> length px' = ny \<and> length py' = ny"
        using i True "1.prems" k z ri
        by (intro "1.IH"(1)) (auto simp: nth_list_update)
      then show ?thesis
        using i True by (subst inner2_loop.simps) simp
    next
      case False
      have k: "kept nm ry (Suc i) = kept nm ry i"
        using i "1.prems"(4) False ri by (simp add: kept_Suc)
      have "case inner2_loop nm ny (i + 1) j px py of
           (j', px', py') \<Rightarrow> zip (take j' px') (take j' py') = kept nm ry ny \<and>
             j' \<le> ny \<and> length px' = ny \<and> length py' = ny"
        using i False "1.prems" k
        by (intro "1.IH"(2)) auto
      then show ?thesis
        using i False by (subst inner2_loop.simps) simp
    qed
  qed
qed

lemma kept_all: "kept nm ry (length ry) = filter (\<lambda>r. snd r \<noteq> nm) (left_rows ry)"
  by (simp add: kept_def left_rows_def)

lemma inner2_loop_result:
  "(case inner2_loop nm (length ry) 0 0 (replicate (length ry) 0) ry of
      (j, px, py) \<Rightarrow> (take j px, take j py))
   = (map fst (filter (\<lambda>r. snd r \<noteq> nm) (left_rows ry)),
      map snd (filter (\<lambda>r. snd r \<noteq> nm) (left_rows ry)))"
proof -
  define ny where "ny = length ry"
  obtain j px py where l: "inner2_loop nm ny 0 0 (replicate ny 0) ry = (j, px, py)"
    by (metis prod_cases3)
  have "case inner2_loop nm ny 0 0 (replicate ny 0) ry of
           (j', px', py') \<Rightarrow> zip (take j' px') (take j' py') = kept nm ry ny \<and>
             j' \<le> ny \<and> length px' = ny \<and> length py' = ny"
    by (rule inner2_loop_eq) (simp_all add: ny_def kept_def)
  with l have z: "zip (take j px) (take j py) = kept nm ry ny" and len: "j \<le> ny" "length px = ny" "length py = ny"
    by simp_all
  have "map fst (kept nm ry ny) = take j px" "map snd (kept nm ry ny) = take j py"
    using len unfolding z [symmetric] by simp_all
  then show ?thesis
    using l by (simp add: ny_def [symmetric]) (simp add: ny_def kept_all)
qed

lemma C_join_inner2_eq:
  "C_join_inner2 x y tol nm =
     seq (C_closest_dup_closest x y tol nm)
       (\<lambda>ry. Inr (map fst (filter (\<lambda>r. snd r \<noteq> nm) (left_rows ry)),
                   map snd (filter (\<lambda>r. snd r \<noteq> nm) (left_rows ry))))"
proof (cases "C_closest_dup_closest x y tol nm")
  case (Inl e)
  then show ?thesis by (simp add: C_join_inner2_def seq_def)
next
  case (Inr ry)
  obtain j px py where l: "inner2_loop nm (length ry) 0 0 (replicate (length ry) 0) ry = (j, px, py)"
    by (metis prod_cases3)
  with inner2_loop_result [of nm ry]
  have "(take j px, take j py) = (map fst (filter (\<lambda>r. snd r \<noteq> nm) (left_rows ry)),
      map snd (filter (\<lambda>r. snd r \<noteq> nm) (left_rows ry)))"
    by simp
  with Inr l show ?thesis by (simp add: C_join_inner2_def seq_def Let_def)
qed

lemma arg_min_list_least:
  assumes "xs \<noteq> []" "x \<in> set xs"
  shows "f (arg_min_list f xs) \<le> f x"
  using assms by (simp add: f_arg_min_list_f)

lemma arg_min_list_first:
  fixes xs :: "nat list" and f :: "nat \<Rightarrow> real"
  assumes "sorted_wrt (<) xs" "xs \<noteq> []" "x \<in> set xs" "x < arg_min_list f xs"
  shows "f (arg_min_list f xs) < f x"
  using assms
proof (induction f xs arbitrary: x rule: arg_min_list.induct)
  case (1 f y)
  then show ?case by simp
next
  case (2 f y z zs)
  let ?m = "arg_min_list f (z # zs)"
  have m: "?m \<in> set (z # zs)" by (rule arg_min_list_in) simp
  show ?case
  proof (cases "f y \<le> f ?m")
    case True
    then have "arg_min_list f (y # z # zs) = y" by (simp add: Let_def)
    with "2.prems" show ?thesis by auto
  next
    case False
    then have a: "arg_min_list f (y # z # zs) = ?m" by (simp add: Let_def)
    show ?thesis
    proof (cases "x = y")
      case True with False a show ?thesis by simp
    next
      case F: False
      with "2.prems" have "x \<in> set (z # zs)" "sorted_wrt (<) (z # zs)" "x < ?m"
        using a by auto
      then have "f ?m < f x" by (intro "2.IH") simp_all
      with a show ?thesis by simp
    qed
  qed
next
  case (3 f)
  then show ?case by simp
qed

lemma best_match_Some:
  assumes "best_match left right tol i = Some j"
  shows "j < length right" "distance left right i j \<le> tol ! i"
    "\<And>k. k < length right \<Longrightarrow> distance left right i j \<le> distance left right i k"
    "\<And>k. k < j \<Longrightarrow> distance left right i j < distance left right i k"
proof -
  define acc where "acc = acceptable left right tol i"
  from assms have ne: "acc \<noteq> []" and j: "j = arg_min_list (distance left right i) acc"
    by (auto simp: best_match_def acc_def split: list.splits)
  have jin: "j \<in> set acc" unfolding j by (rule arg_min_list_in [OF ne])
  then show jl: "j < length right" and jt: "distance left right i j \<le> tol ! i"
    by (auto simp: acc_def acceptable_def)
  have srt: "sorted_wrt (<) acc"
    unfolding acc_def acceptable_def by (intro sorted_wrt_filter) (simp add: sorted_wrt_upt)
  { fix k assume k: "k < length right"
    show "distance left right i j \<le> distance left right i k"
    proof (cases "k \<in> set acc")
      case True
      then show ?thesis unfolding j by (intro arg_min_list_least [OF ne])
    next
      case False
      with k have "\<not> distance left right i k \<le> tol ! i" by (simp add: acc_def acceptable_def)
      with jt show ?thesis by simp
    qed }
  { fix k assume k: "k < j"
    show "distance left right i j < distance left right i k"
    proof (cases "k \<in> set acc")
      case True
      then show ?thesis using k unfolding j by (intro arg_min_list_first [OF srt ne])
    next
      case False
      with k jl have "\<not> distance left right i k \<le> tol ! i" by (simp add: acc_def acceptable_def)
      with jt show ?thesis by simp
    qed }
qed

lemma best_match_mono:
  assumes "sorted left" "sorted right" "a \<le> b" "b < length left"
    "best_match left right tol a = Some ja" "best_match left right tol b = Some jb"
  shows "ja \<le> jb"
proof (rule ccontr)
  assume "\<not> ja \<le> jb"
  then have lt: "jb < ja" by simp
  note A = best_match_Some [OF assms(5)]
  note B = best_match_Some [OF assms(6)]
  have x: "left ! a \<le> left ! b" using assms(1,3,4) by (simp add: sorted_iff_nth_mono)
  have y: "right ! jb \<le> right ! ja" using assms(2) lt A(1) by (simp add: sorted_iff_nth_mono)
  have 1: "\<bar>left ! a - right ! ja\<bar> < \<bar>left ! a - right ! jb\<bar>"
    using A(4) [OF lt] by (simp add: distance_def)
  have 2: "\<bar>left ! b - right ! jb\<bar> \<le> \<bar>left ! b - right ! ja\<bar>"
    using B(3) [OF A(1)] by (simp add: distance_def)
  from x y 1 2 show False by linarith
qed


text \<open>
  Soundness of a row in exact arithmetic, as the specification words it:
  \<open>|left[i] - right[j]| \<le> tolerance[i]\<close> over the real numbers.
\<close>

definition row_exact :: "real list \<Rightarrow> real list \<Rightarrow> real list \<Rightarrow> int \<Rightarrow> int \<times> int \<Rightarrow> bool" where
  "row_exact left right tolerance sentinel r \<longleftrightarrow>
     (let i = fst r; j = snd r in
      i = sentinel \<or> j = sentinel \<or>
      (1 \<le> i \<and> i \<le> int (length left) \<and> 1 \<le> j \<and> j \<le> int (length right) \<and>
       \<bar>left ! nat (i - 1) - right ! nat (j - 1)\<bar> \<le> tolerance ! nat (i - 1)))"

lemma closest_length [simp]: "length (closest_match x y tol nm) = length x"
  by (simp add: closest_match_def)

lemma closest_nth:
  assumes "k < length x"
  shows "closest_match x y tol nm ! k = nm \<or>
         (\<exists>j. best_match x y tol k = Some j \<and> closest_match x y tol nm ! k = int j + 1)"
  using assms by (auto simp: closest_match_def split: option.splits)

lemma closest_exact:
  assumes "k < length x"
  shows "row_exact x y tol nm (int k + 1, closest_match x y tol nm ! k)"
  using closest_nth [OF assms, of y tol nm]
proof
  assume "closest_match x y tol nm ! k = nm"
  then show ?thesis by (simp add: row_exact_def)
next
  assume "\<exists>j. best_match x y tol k = Some j \<and> closest_match x y tol nm ! k = int j + 1"
  then obtain j where j: "best_match x y tol k = Some j"
    "closest_match x y tol nm ! k = int j + 1" by blast
  from best_match_Some(1,2) [OF j(1)] have "j < length y" "\<bar>x ! k - y ! j\<bar> \<le> tol ! k"
    by (simp_all add: distance_def)
  with assms show ?thesis unfolding j(2) by (simp add: row_exact_def)
qed

lemma nondecreasing_nthI:
  assumes "\<And>a b. a < b \<Longrightarrow> b < length col \<Longrightarrow> col ! a \<noteq> na \<Longrightarrow> col ! b \<noteq> na \<Longrightarrow> col ! a \<le> col ! b"
  shows "nondecreasing na col"
  using assms
proof (induction col rule: rev_induct)
  case Nil
  then show ?case by (simp add: nondecreasing_def)
next
  case (snoc v col)
  have "nondecreasing na col"
  proof (rule snoc.IH)
    fix a b assume "a < b" "b < length col" "col ! a \<noteq> na" "col ! b \<noteq> na"
    then show "col ! a \<le> col ! b"
      using snoc.prems [of a b] by (simp add: nth_append)
  qed
  moreover have "v \<noteq> na \<Longrightarrow> \<forall>u \<in> set col. u \<noteq> na \<longrightarrow> u \<le> v"
  proof (intro ballI impI)
    fix u assume v: "v \<noteq> na" and u: "u \<in> set col" "u \<noteq> na"
    then obtain a where a: "a < length col" "col ! a = u" by (auto simp: in_set_conv_nth)
    then show "u \<le> v"
      using snoc.prems [of a "length col"] u v by (simp add: nth_append)
  qed
  ultimately show ?case
    by (auto simp: nondecreasing_def sorted_append)
qed

lemma closest_mono:
  assumes "sorted x" "sorted y"
  shows "nondecreasing nm (closest_match x y tol nm)"
proof (rule nondecreasing_nthI)
  fix a b
  assume ab: "a < b" "b < length (closest_match x y tol nm)"
    and na: "closest_match x y tol nm ! a \<noteq> nm"
    and nb: "closest_match x y tol nm ! b \<noteq> nm"
  from ab have l: "a < length x" "b < length x" by simp_all
  from closest_nth [OF l(1)] na
  obtain ja where ja: "best_match x y tol a = Some ja"
    "closest_match x y tol nm ! a = int ja + 1" by metis
  from closest_nth [OF l(2)] nb
  obtain jb where jb: "best_match x y tol b = Some jb"
    "closest_match x y tol nm ! b = int jb + 1" by metis
  have le: "a \<le> b" using ab(1) by simp
  have "ja \<le> jb"
    by (rule best_match_mono [OF assms le l(2) ja(1) jb(1)])
  then show "closest_match x y tol nm ! a \<le> closest_match x y tol nm ! b"
    unfolding ja(2) jb(2) by simp
qed

lemma index_column_sorted: "sorted (map (\<lambda>k. int k + 1) [0..<n])"
  by (simp add: sorted_iff_nth_mono)

lemma left_rows_exact:
  "list_all (row_exact x y tol nm) (left_rows (closest_match x y tol nm))"
proof -
  have "row_exact x y tol nm r" if "r \<in> set (left_rows (closest_match x y tol nm))" for r
  proof -
    from that obtain k where "k < length x" "r = (int k + 1, closest_match x y tol nm ! k)"
      by (auto simp: left_rows_def in_set_conv_nth)
    then show ?thesis using closest_exact by simp
  qed
  then show ?thesis by (simp add: list_all_iff)
qed

lemma filter_rows_snd:
  "map snd (filter (\<lambda>r. snd r \<noteq> nm) (left_rows ry)) = filter (\<lambda>v. v \<noteq> nm) ry"
proof -
  have "map snd (filter (\<lambda>r. snd r \<noteq> nm) (zip xs ys)) = filter (\<lambda>v. v \<noteq> nm) ys"
    if "length xs = length ys" for xs :: "int list" and ys
    using that by (induction xs ys rule: list_induct2) auto
  then show ?thesis by (simp add: left_rows_def)
qed

lemma filter_rows_mono:
  assumes "nondecreasing nm ry"
  shows "nondecreasing nm (map fst (filter (\<lambda>r. snd r \<noteq> nm) (left_rows ry)))"
    and "nondecreasing nm (map snd (filter (\<lambda>r. snd r \<noteq> nm) (left_rows ry)))"
proof -
  have "sorted (map fst (left_rows ry))"
    by (simp add: index_column_sorted)
  then have "sorted (map fst (filter (\<lambda>r. snd r \<noteq> nm) (left_rows ry)))"
    by (rule sorted_filter)
  then have "sorted (filter (\<lambda>v. v \<noteq> nm) (map fst (filter (\<lambda>r. snd r \<noteq> nm) (left_rows ry))))"
    by (rule sorted_wrt_filter)
  then show "nondecreasing nm (map fst (filter (\<lambda>r. snd r \<noteq> nm) (left_rows ry)))"
    by (simp add: nondecreasing_def)
  show "nondecreasing nm (map snd (filter (\<lambda>r. snd r \<noteq> nm) (left_rows ry)))"
    using assms by (simp add: filter_rows_snd nondecreasing_def)
qed

text \<open>The resolver on a tolerance of the length of \<open>left\<close>, and on any tolerance.\<close>

lemma recycle_same:
  assumes "length tol = n"
  shows "recycle tol n = tol"
proof (cases "length tol = 1")
  case True
  then obtain a where "tol = [a]" by (cases tol) auto
  with assms show ?thesis by (auto simp: recycle_def)
next
  case False
  then show ?thesis by (simp add: recycle_def)
qed

lemma resolver_matching_length:
  assumes "length tol = length x"
  shows "C_closest_dup_closest x y tol nm = Inr (closest_match x y tol nm)"
  using assms by (simp add: C_closest_dup_closest_def recycle_same)

lemma resolver_result:
  "C_closest_dup_closest x y tol nm =
     (if length tol = 1 \<or> length tol = length x
      then Inr (closest_match x y (recycle tol (length x)) nm) else Inl UsageError)"
  by (simp add: C_closest_dup_closest_def)

section \<open>The states the outer loop reaches\<close>







section \<open>Summaries of the joins\<close>

lemma outer_chain_of_three:
  assumes "fabs_diff x0 y0 = Fin a0" "fabs_diff x1 y0 = Fin b0" "fabs_diff x0 y1 = Fin c0"
    "fabs_diff x1 y1 = Fin a1" "fabs_diff x2 y1 = Fin b1" "fabs_diff x1 y2 = Fin c1"
    "fabs_diff x2 y2 = Fin a2"
    "a0 \<le> t" "a1 \<le> t" "a2 \<le> t"
    "\<not> b0 < a0" "\<not> c0 < a0" "\<not> b1 < a1" "\<not> c1 < a1"
  shows "C_join_outer [x0, x1, x2] [y0, y1, y2] [t, t, t] = Inr ([1, 2, 3], [1, 2, 3])"
  using assms
  by (simp add: C_join_outer_def outer_init_def outer_loop.simps outer_body_def
      Let_def seq_def put_presx_def put_presy_def store_def eval_nat_numeral)


text \<open>The second outer join raises no usage error, whatever its arguments.\<close>

lemma outer2_body_no_usage_error:
  "outer2_body x y tol nm st \<noteq> Inl UsageError"
  by (cases st) (auto simp: outer2_body_def Let_def seq_def store_def split: if_splits)

lemma outer2_loop_no_usage_error:
  "outer2_loop x y tol nm st \<noteq> Inl UsageError"
proof (induction x y tol nm st rule: outer2_loop.induct)
  case (1 x y tol nm i ix iy prx pry)
  show ?case
  proof (cases "ix < length x \<or> iy < length y")
    case True
    show ?thesis
    proof (cases "outer2_body x y tol nm (i, ix, iy, prx, pry)")
      case (Inl e)
      with outer2_body_no_usage_error [of x y tol nm "(i, ix, iy, prx, pry)"] True
      show ?thesis by (subst outer2_loop.simps) simp
    next
      case (Inr st)
      with "1.IH" [OF True Inr] True show ?thesis by (subst outer2_loop.simps) simp
    qed
  next
    case False
    then show ?thesis by (subst outer2_loop.simps) simp
  qed
qed

lemma C_join_outer2_no_usage_error:
  "C_join_outer2 x y tol nm \<noteq> Inl UsageError"
  using outer2_loop_no_usage_error [of x y tol nm]
  by (auto simp: C_join_outer2_def Let_def split: sum.splits prod.splits)

lemma C_join_outer_total:
  assumes "length tol = length px"
  shows "\<exists>r. C_join_outer px py tol = Inr r"
  using C_join_outer_emitted [OF assms, of py] by metis

lemma C_join_left_total:
  assumes "length tol = length px"
  shows "\<exists>r. C_join_left u px py tol = Inr r"
  using C_join_left_result [OF assms, of u py] by metis

lemma C_join_outer_sound_mono:
  assumes "length tol = length px"
  shows "\<exists>rx ry. C_join_outer px py tol = Inr (rx, ry) \<and>
           list_all (row_sound px py tol NA_INTEGER) (zip rx ry) \<and>
           nondecreasing NA_INTEGER rx \<and> nondecreasing NA_INTEGER ry"
proof -
  from C_join_outer_emitted [OF assms, of py]
  obtain s where s: "C_join_outer px py tol = Inr (map fst (emitted s), map snd (emitted s))"
    "outer_inv px py tol s" by blast
  have "list_all (row_sound px py tol NA_INTEGER) (zip (map fst (emitted s)) (map snd (emitted s)))"
    using s(2) by (simp add: outer_inv_def outer_sound_def zip_map_fst_snd list_all_iff)
  moreover have "nondecreasing NA_INTEGER (map fst (emitted s))" "nondecreasing NA_INTEGER (map snd (emitted s))"
    using s(2) by (simp_all add: outer_inv_def outer_mono_def)
  ultimately show ?thesis using s(1) by blast
qed

lemma C_join_left_sound_mono:
  assumes "length tol = length px"
  shows "\<exists>ry. C_join_left u px py tol = Inr (map (\<lambda>k. int k + 1) [0..<length px], ry) \<and>
           length ry = length px \<and>
           list_all (row_sound px py tol NA_INTEGER) (zip (map (\<lambda>k. int k + 1) [0..<length px]) ry) \<and>
           nondecreasing NA_INTEGER ry"
proof -
  from C_join_left_result [OF assms, of u py]
  obtain rx ry where r: "C_join_left u px py tol = Inr (rx, ry)"
    "length rx = length px" "length ry = length px"
    "rows_ok px py tol (length px) (length py) rx ry" by blast
  have rx: "rx = map (\<lambda>k. int k + 1) [0..<length px]"
    using r(2,4) by (intro nth_equalityI) (auto simp: rows_ok_def)
  have "row_sound px py tol NA_INTEGER (zip rx ry ! k)" if "k < length (zip rx ry)" for k
    using that r(2,3,4) by (simp add: rows_ok_def rx)
  then have "list_all (row_sound px py tol NA_INTEGER) (zip rx ry)"
    by (simp add: list_all_length)
  moreover have "nondecreasing NA_INTEGER ry"
    using r(3,4) by (simp add: rows_ok_def)
  ultimately show ?thesis using r(1,3) rx by blast
qed

lemma sorted_nondecreasing:
  assumes "sorted col"
  shows "nondecreasing na col"
  using assms unfolding nondecreasing_def by (rule sorted_wrt_filter)

text \<open>The second outer join only appends rows; its invariant is on the list of rows.\<close>

lemma outer2_body_row:
  assumes "length x \<le> length tol" "i < length prx" "i < length pry"
    "ix < length x \<or> iy < length y"
  shows "\<exists>a b ix' iy'.
     outer2_body x y tol nm (i, ix, iy, prx, pry) = Inr (i + 1, ix', iy', prx[i := a], pry[i := b]) \<and>
     ((a = nm \<and> ix' = ix) \<or> (a = int (ix + 1) \<and> ix' = ix + 1 \<and> ix < length x)) \<and>
     ((b = nm \<and> iy' = iy) \<or> (b = int (iy + 1) \<and> iy' = iy + 1 \<and> iy < length y)) \<and>
     ix + iy < ix' + iy' \<and>
     (ix' = ix + 1 \<and> iy' = iy + 1 \<longrightarrow> within_tol x y tol ix iy)"
  using assms
  by (auto simp: outer2_body_def Let_def seq_def store_def within_tol_def idiff_at_def
      split: if_splits)


lemma nondecreasing_snoc_general:
  assumes "nondecreasing na col" "\<forall>a \<in> set col. a = na \<or> a \<le> v"
  shows "nondecreasing na (col @ [v])"
  using assms by (auto simp: nondecreasing_def sorted_append)

definition rows2_ok :: "real list \<Rightarrow> real list \<Rightarrow> real list \<Rightarrow> int \<Rightarrow> nat \<Rightarrow> nat \<Rightarrow> (int \<times> int) list \<Rightarrow> bool" where
  "rows2_ok x y tol nm ix iy rows \<longleftrightarrow>
     (\<forall>r \<in> set rows. row_sound x y tol nm r \<and>
        (fst r = nm \<or> fst r \<le> int ix) \<and> (snd r = nm \<or> snd r \<le> int iy)) \<and>
     nondecreasing nm (map fst rows) \<and> nondecreasing nm (map snd rows)"

lemma rows2_ok_append:
  assumes "rows2_ok x y tol nm ix iy rows"
    "(a = nm \<and> ix' = ix) \<or> (a = int (ix + 1) \<and> ix' = ix + 1 \<and> ix < length x)"
    "(b = nm \<and> iy' = iy) \<or> (b = int (iy + 1) \<and> iy' = iy + 1 \<and> iy < length y)"
    "ix' = ix + 1 \<and> iy' = iy + 1 \<longrightarrow> within_tol x y tol ix iy"
  shows "rows2_ok x y tol nm ix' iy' (rows @ [(a, b)])"
proof -
  have s: "row_sound x y tol nm (a, b)"
  proof (cases "a = nm \<or> b = nm")
    case True then show ?thesis by auto
  next
    case False
    with assms(2,3,4) have "a = int ix + 1" "b = int iy + 1" "ix < length x" "iy < length y"
      "within_tol x y tol ix iy" by auto
    then show ?thesis by (simp add: row_sound_match)
  qed
  have old: "\<forall>r \<in> set rows. (fst r = nm \<or> fst r \<le> int ix) \<and> (snd r = nm \<or> snd r \<le> int iy)"
    using assms(1) by (simp add: rows2_ok_def)
  have 1: "nondecreasing nm (map fst rows @ [a])"
  proof (cases "a = nm")
    case True
    then show ?thesis using assms(1) by (simp add: rows2_ok_def nondecreasing_def)
  next
    case False
    with assms(2) have "a = int ix + 1" by auto
    with old show ?thesis
      using assms(1) by (intro nondecreasing_snoc_general) (auto simp: rows2_ok_def)
  qed
  have 2: "nondecreasing nm (map snd rows @ [b])"
  proof (cases "b = nm")
    case True
    then show ?thesis using assms(1) by (simp add: rows2_ok_def nondecreasing_def)
  next
    case False
    with assms(3) have "b = int iy + 1" by auto
    with old show ?thesis
      using assms(1) by (intro nondecreasing_snoc_general) (auto simp: rows2_ok_def)
  qed
  have 3: "\<forall>r \<in> set (rows @ [(a, b)]). (fst r = nm \<or> fst r \<le> int ix') \<and> (snd r = nm \<or> snd r \<le> int iy')"
    using old assms(2,3) by auto
  show ?thesis
    unfolding rows2_ok_def using assms(1) s 1 2 3 by (simp add: rows2_ok_def)
qed

definition outer2_inv :: "real list \<Rightarrow> real list \<Rightarrow> real list \<Rightarrow> int \<Rightarrow> outer2_state \<Rightarrow> bool" where
  "outer2_inv x y tol nm st \<longleftrightarrow>
     (case st of (i, ix, iy, prx, pry) \<Rightarrow>
        length x \<le> length tol \<and> length prx = length x + length y \<and>
        length pry = length x + length y \<and> ix \<le> length x \<and> iy \<le> length y \<and> i \<le> ix + iy \<and>
        rows2_ok x y tol nm ix iy (zip (take i prx) (take i pry)))"

lemma outer2_inv_step:
  assumes "outer2_inv x y tol nm (i, ix, iy, prx, pry)" "ix < length x \<or> iy < length y"
  shows "\<exists>st. outer2_body x y tol nm (i, ix, iy, prx, pry) = Inr st \<and> outer2_inv x y tol nm st"
proof -
  from assms have b: "length x \<le> length tol" "length prx = length x + length y"
    "length pry = length x + length y" "ix \<le> length x" "iy \<le> length y" "i \<le> ix + iy"
    and r: "rows2_ok x y tol nm ix iy (zip (take i prx) (take i pry))"
    by (simp_all add: outer2_inv_def)
  have i: "i < length prx" "i < length pry" using b assms(2) by auto
  from outer2_body_row [OF b(1) i assms(2), of nm]
  obtain a c ix' iy' where
    e: "outer2_body x y tol nm (i, ix, iy, prx, pry) = Inr (i + 1, ix', iy', prx[i := a], pry[i := c])"
    and a: "(a = nm \<and> ix' = ix) \<or> (a = int (ix + 1) \<and> ix' = ix + 1 \<and> ix < length x)"
    and c: "(c = nm \<and> iy' = iy) \<or> (c = int (iy + 1) \<and> iy' = iy + 1 \<and> iy < length y)"
    and m: "ix + iy < ix' + iy'"
    and t: "ix' = ix + 1 \<and> iy' = iy + 1 \<longrightarrow> within_tol x y tol ix iy"
    by blast
  have z: "zip (take (Suc i) (prx[i := a])) (take (Suc i) (pry[i := c]))
           = zip (take i prx) (take i pry) @ [(a, c)]"
    using i by (rule zip_take_append_row)
  have "rows2_ok x y tol nm ix' iy' (zip (take (Suc i) (prx[i := a])) (take (Suc i) (pry[i := c])))"
    unfolding z by (rule rows2_ok_append [OF r a c t])
  moreover have "ix' \<le> length x" "iy' \<le> length y" "Suc i \<le> ix' + iy'"
    using a c m b by auto
  ultimately have "outer2_inv x y tol nm (i + 1, ix', iy', prx[i := a], pry[i := c])"
    using b by (simp add: outer2_inv_def)
  with e show ?thesis by blast
qed

lemma outer2_loop_inv:
  assumes "outer2_inv x y tol nm st"
  shows "\<exists>i ix iy prx pry. outer2_loop x y tol nm st = Inr (i, ix, iy, prx, pry) \<and>
           outer2_inv x y tol nm (i, ix, iy, prx, pry)"
  using assms
proof (induction x y tol nm st rule: outer2_loop.induct)
  case (1 x y tol nm i ix iy prx pry)
  show ?case
  proof (cases "ix < length x \<or> iy < length y")
    case True
    from outer2_inv_step [OF "1.prems" True]
    obtain st where st: "outer2_body x y tol nm (i, ix, iy, prx, pry) = Inr st"
      "outer2_inv x y tol nm st" by blast
    from "1.IH" [OF True st] show ?thesis
      using True st(1) by (subst outer2_loop.simps) simp
  next
    case False
    with "1.prems" show ?thesis by (subst outer2_loop.simps) simp
  qed
qed

lemma C_join_outer2_sound_mono:
  assumes "length x \<le> length tol"
  shows "\<exists>rx ry. C_join_outer2 x y tol nm = Inr (rx, ry) \<and>
           list_all (row_sound x y tol nm) (zip rx ry) \<and>
           nondecreasing nm rx \<and> nondecreasing nm ry"
proof -
  let ?n = "length x + length y"
  have "outer2_inv x y tol nm (0, 0, 0, replicate ?n 0, replicate ?n 0)"
    using assms by (simp add: outer2_inv_def rows2_ok_def nondecreasing_def)
  from outer2_loop_inv [OF this]
  obtain i ix iy prx pry where
    l: "outer2_loop x y tol nm (0, 0, 0, replicate ?n 0, replicate ?n 0) = Inr (i, ix, iy, prx, pry)"
    and v: "outer2_inv x y tol nm (i, ix, iy, prx, pry)" by blast
  from v have len: "i \<le> length prx" "i \<le> length pry"
    and r: "rows2_ok x y tol nm ix iy (zip (take i prx) (take i pry))"
    by (auto simp: outer2_inv_def)
  have c: "C_join_outer2 x y tol nm = Inr (take i prx, take i pry)"
    using l by (simp add: C_join_outer2_def Let_def)
  have "map fst (zip (take i prx) (take i pry)) = take i prx"
    "map snd (zip (take i prx) (take i pry)) = take i pry"
    using len by simp_all
  with r have "list_all (row_sound x y tol nm) (zip (take i prx) (take i pry))"
    "nondecreasing nm (take i prx)" "nondecreasing nm (take i pry)"
    by (auto simp: rows2_ok_def list_all_iff)
  with c show ?thesis by blast
qed

text \<open>The resolver-based joins on a tolerance of the length of \<open>left\<close>.\<close>

lemma C_join_left2_matching:
  assumes "length tol = length x"
  shows "C_join_left2 x y tol nm
           = Inr (map (\<lambda>k. int k + 1) [0..<length x], closest_match x y tol nm)"
  by (simp add: C_join_left2_eq resolver_matching_length [OF assms] seq_def)

lemma C_join_inner2_matching:
  assumes "length tol = length x"
  shows "C_join_inner2 x y tol nm
           = Inr (map fst (filter (\<lambda>r. snd r \<noteq> nm) (left_rows (closest_match x y tol nm))),
                  map snd (filter (\<lambda>r. snd r \<noteq> nm) (left_rows (closest_match x y tol nm))))"
  by (simp add: C_join_inner2_eq resolver_matching_length [OF assms] seq_def)

lemma left_rows_zip:
  "zip (map (\<lambda>k. int k + 1) [0..<length ry]) ry = left_rows ry"
  by (simp add: left_rows_def)

text \<open>
  The distance the scans compare with the tolerance is the rounded one; the exact distance
  of a matched pair exceeds the tolerance by at most half a unit in the last place of the
  difference.
\<close>

lemma round_even_error: "\<bar>of_int (round_even r) - r\<bar> \<le> 1 / 2"
  unfolding round_even_def Let_def by (auto simp: abs_if) linarith+

lemma ulp_up_power: "\<exists>j \<le> n. ulp_up n u a = u * 2 ^ j"
proof (induction n arbitrary: u)
  case 0
  then show ?case by simp
next
  case (Suc n)
  show ?case
  proof (cases "a < 2 ^ 53 * u")
    case True
    then have "ulp_up (Suc n) u a = u * 2 ^ 0" by simp
    then show ?thesis by blast
  next
    case False
    from Suc.IH [of "2 * u"] obtain j where "j \<le> n" "ulp_up n (2 * u) a = 2 * u * 2 ^ j" by blast
    with False have "Suc j \<le> Suc n" "ulp_up (Suc n) u a = u * 2 ^ Suc j" by simp_all
    then show ?thesis by blast
  qed
qed

lemma ulp_positive: "0 < ulp a"
proof (cases "2 ^ 53 \<le> a")
  case True
  with ulp_up_power [of 971 1 a] show ?thesis by (auto simp: ulp_def)
next
  case False
  with ulp_down_power [of 1074 1 a] show ?thesis by (auto simp: ulp_def)
qed

lemma fl_error: "\<bar>fl x - x\<bar> \<le> ulp \<bar>x\<bar> / 2"
proof -
  define u where "u = ulp \<bar>x\<bar>"
  have u: "0 < u" unfolding u_def by (rule ulp_positive)
  have "fl x - x = (of_int (round_even (x / u)) - x / u) * u"
    using u by (simp add: fl_def u_def [symmetric] field_simps)
  then have "\<bar>fl x - x\<bar> = \<bar>of_int (round_even (x / u)) - x / u\<bar> * u"
    using u by (simp add: abs_mult)
  also have "\<dots> \<le> 1 / 2 * u"
    using u round_even_error [of "x / u"] by (intro mult_right_mono) simp_all
  finally show ?thesis by (simp add: u_def)
qed

lemma within_tol_exact_bound:
  assumes "within_tol px py tol i j"
  shows "\<bar>px ! i - py ! j\<bar> \<le> tol ! i + ulp \<bar>px ! i - py ! j\<bar> / 2"
proof -
  from assms have "\<bar>fl (px ! i - py ! j)\<bar> \<le> tol ! i"
    by (auto simp: within_tol_def idiff_at_def fabs_diff_def Let_def split: if_splits)
  with fl_error [of "px ! i - py ! j"] show ?thesis by linarith
qed

section \<open>The claims\<close>

lemmas scan_eval =
  Let_def seq_def put_presx_def put_presy_def store_def fabs_diff_finite eval_nat_numeral

subsection \<open>C1\<close>




subsection \<open>C2\<close>

text \<open>
  Claim C2, as stated, at \<open>left = [1, 5]\<close>, \<open>right = [5]\<close>, tolerance 0: the one surviving
  row of the inner join has the left entry 2, the original index of the matched element,
  and not 1, which renumbering to \<open>1..k\<close> would give.
\<close>

theorem C2_counterexample:
  "C_join_inner2 [1, 5] [5] [0, 0] NA_INTEGER = Inr ([2], [1]) \<and>
   [2] \<noteq> map int [1 ..< Suc (length [2 :: int])]"
  by code_simp

text \<open>
  Claim C2, amended. The inner join \<^verbatim>\<open>C_join_inner2\<close> is the left join \<^verbatim>\<open>C_join_left2\<close>
  with every row removed whose right entry equals the sentinel; the rows that remain keep
  their order, their left entry (the original 1-based index into \<open>left\<close>, the left column of
  the left join being \<open>1..n\<close>) and their right entry. An error of the left join is the error
  of the inner join; the left join returns its rows for a tolerance that is a scalar or has
  the length of \<open>left\<close>, and the usage error otherwise.
\<close>

theorem C2_inner_join_filters_left_join:
  "C_join_inner2 x y tolerance nomatch =
     (case C_join_left2 x y tolerance nomatch of
        Inl e \<Rightarrow> Inl e
      | Inr (lx, ly) \<Rightarrow>
          (let rows = filter (\<lambda>r. snd r \<noteq> nomatch) (zip lx ly)
           in Inr (map fst rows, map snd rows))) \<and>
   (if length tolerance = 1 \<or> length tolerance = length x
    then \<exists>ly. C_join_left2 x y tolerance nomatch = Inr (map (\<lambda>k. int k + 1) [0..<length x], ly) \<and>
              length ly = length x
    else C_join_left2 x y tolerance nomatch = Inl UsageError)"
  by (simp add: C_join_inner2_eq C_join_left2_eq resolver_result seq_def left_rows_def Let_def)

theorem C2_witness:
  "C_join_inner2 [1, 5] [5] [0, 0] NA_INTEGER =
     (case C_join_left2 [1, 5] [5] [0, 0] NA_INTEGER of
        Inl e \<Rightarrow> Inl e
      | Inr (lx, ly) \<Rightarrow>
          (let rows = filter (\<lambda>r. snd r \<noteq> NA_INTEGER) (zip lx ly)
           in Inr (map fst rows, map snd rows))) \<and>
   (if length [0, 0 :: real] = 1 \<or> length [0, 0 :: real] = length [1, 5 :: real]
    then \<exists>ly. C_join_left2 [1, 5] [5] [0, 0] NA_INTEGER
                 = Inr (map (\<lambda>k. int k + 1) [0..<length [1, 5 :: real]], ly) \<and>
              length ly = length [1, 5 :: real]
    else C_join_left2 [1, 5] [5] [0, 0] NA_INTEGER = Inl UsageError)"
  by (rule C2_inner_join_filters_left_join)

subsection \<open>C3\<close>

text \<open>
  Claim C3, as stated, at \<open>left = [10^16]\<close>, \<open>right = [-1]\<close>, tolerance \<open>10^16\<close>, all three
  doubles. The outer join pairs the two elements: the difference \<open>10^16 + 1\<close> is not a
  double, it lies halfway between \<open>10^16\<close> and \<open>10^16 + 2\<close> and rounds to \<open>10^16\<close>, which
  is within the tolerance. The exact distance \<open>10^16 + 1\<close> is above the tolerance.
\<close>

theorem C3_counterexample:
  "C_join_outer [10 ^ 16] [- 1] [10 ^ 16] = Inr ([1], [1]) \<and>
   fl (10 ^ 16) = 10 ^ 16 \<and> fl (- 1) = - 1 \<and>
   \<not> \<bar>[10 ^ 16] ! 0 - [- 1] ! 0\<bar> \<le> [10 ^ 16 :: real] ! 0"
proof -
  have "fl (10 ^ 16 + 1) = 10 ^ 16"
    by (subst fl_big [where j = 1]) (simp_all add: round_even_def)
  then have "fabs_diff (10 ^ 16) (- 1) = Fin (10 ^ 16)"
    by (simp add: fabs_diff_below)
  then have "C_join_outer [10 ^ 16] [- 1] [10 ^ 16] = Inr ([1], [1])"
    by (simp add: C_join_outer_def outer_init_def outer_loop.simps outer_body_def scan_eval)
  moreover have "fl (10 ^ 16) = 10 ^ 16"
    by (subst fl_big [where j = 1]) (simp_all add: round_even_def)
  ultimately show ?thesis by simp
qed

text \<open>
  Claim C3, amended (tolerance soundness). In every row of a join whose two columns are not
  the sentinel, the left index \<open>i\<close> and the right index \<open>j\<close> are valid 1-based positions and
  the distance of \<open>left[i]\<close> and \<open>right[j]\<close> is at most \<open>tolerance[i]\<close>, the tolerance being
  the one of the row's own left index. For the scans \<^verbatim>\<open>C_join_outer\<close> (also for the rows
  rewritten after \<^verbatim>\<open>idx--\<close>), \<^verbatim>\<open>C_join_left\<close> and \<^verbatim>\<open>C_join_outer2\<close> the distance is the one
  the code computes, \<^verbatim>\<open>fabs(left[i] - right[j])\<close> with the difference rounded to a double
  (\<open>row_sound\<close>); by \<open>within_tol_exact_bound\<close> the exact distance is then at most the
  tolerance plus half a unit in the last place of the difference. For the joins built on
  the resolver, \<^verbatim>\<open>C_join_inner2\<close> and \<^verbatim>\<open>C_join_left2\<close>, it is the exact distance
  (\<open>row_exact\<close>), the resolver being modelled from the specification. This holds whatever
  the value \<open>u\<close> and the sentinel \<open>nomatch\<close>; it needs the tolerance to have the length of
  \<open>left\<close>, and neither sorted inputs nor non-negative tolerances.
\<close>

theorem C3_tolerance_soundness:
  assumes "length tolerance = length left"
  shows "(\<exists>rx ry. C_join_outer left right tolerance = Inr (rx, ry) \<and>
            list_all (row_sound left right tolerance NA_INTEGER) (zip rx ry)) \<and>
         (\<exists>rx ry. C_join_left u left right tolerance = Inr (rx, ry) \<and>
            list_all (row_sound left right tolerance NA_INTEGER) (zip rx ry)) \<and>
         (\<exists>rx ry. C_join_inner2 left right tolerance nomatch = Inr (rx, ry) \<and>
            list_all (row_exact left right tolerance nomatch) (zip rx ry)) \<and>
         (\<exists>rx ry. C_join_left2 left right tolerance nomatch = Inr (rx, ry) \<and>
            list_all (row_exact left right tolerance nomatch) (zip rx ry)) \<and>
         (\<exists>rx ry. C_join_outer2 left right tolerance nomatch = Inr (rx, ry) \<and>
            list_all (row_sound left right tolerance nomatch) (zip rx ry))"
proof -
  have 1: "\<exists>rx ry. C_join_outer left right tolerance = Inr (rx, ry) \<and>
            list_all (row_sound left right tolerance NA_INTEGER) (zip rx ry)"
    using C_join_outer_sound_mono [OF assms, of right] by blast
  have 2: "\<exists>rx ry. C_join_left u left right tolerance = Inr (rx, ry) \<and>
            list_all (row_sound left right tolerance NA_INTEGER) (zip rx ry)"
    using C_join_left_sound_mono [OF assms, of u right] by blast
  have "length left \<le> length tolerance" using assms by simp
  from C_join_outer2_sound_mono [OF this, of right nomatch]
  have 3: "\<exists>rx ry. C_join_outer2 left right tolerance nomatch = Inr (rx, ry) \<and>
            list_all (row_sound left right tolerance nomatch) (zip rx ry)"
    by blast
  let ?rows = "left_rows (closest_match left right tolerance nomatch)"
  have e: "list_all (row_exact left right tolerance nomatch) ?rows"
    by (rule left_rows_exact)
  then have "list_all (row_exact left right tolerance nomatch) (filter (\<lambda>r. snd r \<noteq> nomatch) ?rows)"
    by (simp add: list_all_iff)
  then have 4: "\<exists>rx ry. C_join_inner2 left right tolerance nomatch = Inr (rx, ry) \<and>
            list_all (row_exact left right tolerance nomatch) (zip rx ry)"
    by (simp add: C_join_inner2_matching [OF assms] zip_map_fst_snd)
  have 5: "\<exists>rx ry. C_join_left2 left right tolerance nomatch = Inr (rx, ry) \<and>
            list_all (row_exact left right tolerance nomatch) (zip rx ry)"
    using e by (simp add: C_join_left2_matching [OF assms] left_rows_def)
  show ?thesis using 1 2 3 4 5 by blast
qed

theorem C3_witness:
  "length [16, 16, 16 :: real] = length [0, 20, 23 :: real] \<and>
   (\<exists>rx ry. C_join_outer [0, 20, 23] [16, 22] [16, 16, 16] = Inr (rx, ry) \<and>
      list_all (row_sound [0, 20, 23] [16, 22] [16, 16, 16] NA_INTEGER) (zip rx ry)) \<and>
   (\<exists>rx ry. C_join_left 0 [0, 20, 23] [16, 22] [16, 16, 16] = Inr (rx, ry) \<and>
      list_all (row_sound [0, 20, 23] [16, 22] [16, 16, 16] NA_INTEGER) (zip rx ry)) \<and>
   (\<exists>rx ry. C_join_inner2 [0, 20, 23] [16, 22] [16, 16, 16] NA_INTEGER = Inr (rx, ry) \<and>
      list_all (row_exact [0, 20, 23] [16, 22] [16, 16, 16] NA_INTEGER) (zip rx ry)) \<and>
   (\<exists>rx ry. C_join_left2 [0, 20, 23] [16, 22] [16, 16, 16] NA_INTEGER = Inr (rx, ry) \<and>
      list_all (row_exact [0, 20, 23] [16, 22] [16, 16, 16] NA_INTEGER) (zip rx ry)) \<and>
   (\<exists>rx ry. C_join_outer2 [0, 20, 23] [16, 22] [16, 16, 16] NA_INTEGER = Inr (rx, ry) \<and>
      list_all (row_sound [0, 20, 23] [16, 22] [16, 16, 16] NA_INTEGER) (zip rx ry))"
  using C3_tolerance_soundness [of "[16, 16, 16]" "[0, 20, 23]" "[16, 22]" 0 NA_INTEGER] by simp

subsection \<open>C4\<close>

text \<open>
  Claim C4, at \<^verbatim>\<open>C_join_outer2\<close>. The function makes no check of the length of the
  tolerance and reads \<^verbatim>\<open>ptolerance[ix]\<close> for every pair it compares: no call of it fails
  with the usage error. With \<open>x = [1, 2, 3]\<close>, \<open>y = [1, 2, 3]\<close> and a tolerance of two
  elements the third comparison reads \<^verbatim>\<open>ptolerance[2]\<close>, outside the vector; with
  \<open>x = [1, 2]\<close>, \<open>y = [5]\<close> and a tolerance of three elements the call returns three rows. On
  both inputs \<^verbatim>\<open>C_join_outer\<close> fails with the usage error.
\<close>

theorem C4_outer2_reads_tolerance_unchecked:
  "C_join_outer2 x y tolerance nomatch \<noteq> Inl UsageError \<and>
   C_join_outer2 [1, 2, 3] [1, 2, 3] [0, 0] NA_INTEGER = Inl OutOfBounds \<and>
   C_join_outer2 [1, 2] [5] [0, 0, 0] NA_INTEGER
     = Inr ([1, 2, NA_INTEGER], [NA_INTEGER, NA_INTEGER, 1]) \<and>
   C_join_outer [1, 2, 3] [1, 2, 3] [0, 0] = Inl UsageError \<and>
   C_join_outer [1, 2] [5] [0, 0, 0] = Inl UsageError"
proof -
  have "C_join_outer2 [1, 2, 3] [1, 2, 3] [0, 0] NA_INTEGER = Inl OutOfBounds"
    by (simp add: C_join_outer2_def outer2_loop.simps outer2_body_def scan_eval)
  moreover have "C_join_outer2 [1, 2] [5] [0, 0, 0] NA_INTEGER
     = Inr ([1, 2, NA_INTEGER], [NA_INTEGER, NA_INTEGER, 1])"
    by (simp add: C_join_outer2_def outer2_loop.simps outer2_body_def scan_eval)
  moreover have "C_join_outer [1, 2, 3] [1, 2, 3] [0, 0] = Inl UsageError"
    "C_join_outer [1, 2] [5] [0, 0, 0] = Inl UsageError"
    by (simp_all add: C_join_outer_def)
  ultimately show ?thesis
    using C_join_outer2_no_usage_error [of x y tolerance nomatch] by simp
qed

text \<open>
  The other joins make the check. \<^verbatim>\<open>C_join_outer\<close> and \<^verbatim>\<open>C_join_left\<close> fail with the usage
  error, and return no result, whenever the length of the tolerance differs from the length
  of \<open>x\<close>, and return a result when the lengths are equal. \<^verbatim>\<open>C_join_left2\<close> and
  \<^verbatim>\<open>C_join_inner2\<close> have the check of the resolver.
\<close>

lemma length_check_of_the_scans:
  "(length tolerance \<noteq> length x \<longrightarrow>
      C_join_outer x y tolerance = Inl UsageError \<and> C_join_left u x y tolerance = Inl UsageError) \<and>
   (length tolerance = length x \<longrightarrow>
      (\<exists>r. C_join_outer x y tolerance = Inr r) \<and> (\<exists>r. C_join_left u x y tolerance = Inr r))"
  using C_join_outer_total [of tolerance x y] C_join_left_total [of tolerance x u y]
  by (auto simp: C_join_outer_def C_join_left_def)

lemma length_check_of_the_resolver_joins:
  "(length tolerance \<noteq> 1 \<and> length tolerance \<noteq> length x \<longrightarrow>
      C_join_left2 x y tolerance nomatch = Inl UsageError \<and>
      C_join_inner2 x y tolerance nomatch = Inl UsageError) \<and>
   (length tolerance = length x \<longrightarrow>
      (\<exists>r. C_join_left2 x y tolerance nomatch = Inr r) \<and>
      (\<exists>r. C_join_inner2 x y tolerance nomatch = Inr r))"
  by (simp add: C_join_inner2_eq C_join_left2_eq resolver_result seq_def)

subsection \<open>C5\<close>

text \<open>
  Claim C5 (coverage), at the input \<open>left = [0, 20, 23]\<close>, \<open>right = [16, 22]\<close>, tolerance 16
  for every element. The outer join returns the two rows (2,1) and (3,2): the first element
  of \<open>left\<close> is in no row. The scan emits (1,NA), rewrites it to (1,1) when the y look-ahead
  is better, and rewrites the same row again to (2,1) when the x look-ahead is better in the
  next step; the second rewrite overwrites the only row that held left index 1.
\<close>

theorem C5_outer_join_drops_left_element:
  "C_join_outer [0, 20, 23] [16, 22] [16, 16, 16] = Inr ([2, 3], [1, 2])"
  by (simp add: C_join_outer_def outer_init_def outer_loop.simps outer_body_def scan_eval)

text \<open>
  On the same input the second outer join, which never rewrites a row, has every element of
  \<open>left\<close> and of \<open>right\<close> in exactly one row.
\<close>

lemma outer2_covers_at_that_input:
  "C_join_outer2 [0, 20, 23] [16, 22] [16, 16, 16] NA_INTEGER
     = Inr ([1, 2, 3], [1, NA_INTEGER, 2])"
  by (simp add: C_join_outer2_def outer2_loop.simps outer2_body_def scan_eval)

subsection \<open>C6\<close>

text \<open>
  Claim C6 (scenario 5 of the specification). On \<open>left = [1.0, 1.9, 3.0]\<close>,
  \<open>right = [0.9, 2.0, 3.1]\<close> and the tolerance 0.3 for every element of \<open>left\<close>, the outer
  join returns exactly three rows, (1,1), (2,2) and (3,3): each is a full pairing, no column
  holds \<^verbatim>\<open>NA_INTEGER\<close>, and there is no further row. The first equation takes the decimal
  numbers as they are written; the second takes the doubles nearest to them, which is what
  a caller passes (\<open>fl 1.9\<close> is \<open>8556839292003942 / 2^52\<close>, and so on).
\<close>

theorem C6_scenario5_three_paired_rows:
  "C_join_outer [1.0, 1.9, 3.0] [0.9, 2.0, 3.1] [0.3, 0.3, 0.3] = Inr ([1, 2, 3], [1, 2, 3]) \<and>
   C_join_outer (map fl [1.0, 1.9, 3.0]) (map fl [0.9, 2.0, 3.1]) (map fl [0.3, 0.3, 0.3])
     = Inr ([1, 2, 3], [1, 2, 3])"
proof (rule conjI)
  have a: "fl (1 / 10) = 3602879701896397 / 2 ^ 55" "fl (- (1 / 10)) = - (3602879701896397 / 2 ^ 55)"
    by (subst fl_small [where j = 56]; simp add: round_even_def)+
  have b: "fl (- (6 / 5)) = - (5404319552844595 / 2 ^ 52)"
    by (subst fl_small [where j = 52]; simp add: round_even_def)
  have d: "fabs_diff 1.0 0.9 = Fin (3602879701896397 / 2 ^ 55)"
    "fabs_diff 1.9 0.9 = Fin 1"
    "fabs_diff 1.0 2.0 = Fin 1"
    "fabs_diff 1.9 2.0 = Fin (3602879701896397 / 2 ^ 55)"
    "fabs_diff 3.0 2.0 = Fin 1"
    "fabs_diff 1.9 3.1 = Fin (5404319552844595 / 2 ^ 52)"
    "fabs_diff 3.0 3.1 = Fin (3602879701896397 / 2 ^ 55)"
    using a b by (simp_all add: fabs_diff_finite)
  show "C_join_outer [1.0, 1.9, 3.0] [0.9, 2.0, 3.1] [0.3, 0.3, 0.3] = Inr ([1, 2, 3], [1, 2, 3])"
    by (rule outer_chain_of_three [OF d]) simp_all
next
  have x: "fl 1.0 = 1" "fl 1.9 = 8556839292003942 / 2 ^ 52" "fl 3.0 = 3"
    by (simp, (subst fl_small [where j = 52]; simp add: round_even_def), simp)
  have y: "fl 0.9 = 8106479329266893 / 2 ^ 53" "fl 2.0 = 2" "fl 3.1 = 6980579422424269 / 2 ^ 51"
    by ((subst fl_small [where j = 53]; simp add: round_even_def), simp,
        (subst fl_small [where j = 51]; simp add: round_even_def))
  have t: "fl 0.3 = 5404319552844595 / 2 ^ 54"
    by (subst fl_small [where j = 54]; simp add: round_even_def)
  have d00: "fabs_diff 1 (8106479329266893 / 2 ^ 53) = Fin (900719925474099 / 2 ^ 53)"
    by (rule fabs_diff_eval [where c = "900719925474099 / 2 ^ 53" and d = "900719925474099 / 2 ^ 53"],
        simp, (subst fl_small [where j = 56]; simp add: round_even_def), simp, simp)
  have d10: "fabs_diff (8556839292003942 / 2 ^ 52) (8106479329266893 / 2 ^ 53)
             = Fin (9007199254740991 / 2 ^ 53)"
    by (rule fabs_diff_eval [where c = "9007199254740991 / 2 ^ 53" and d = "9007199254740991 / 2 ^ 53"],
        simp, (subst fl_small [where j = 53]; simp add: round_even_def), simp, simp)
  have d01: "fabs_diff 1 2 = Fin 1"
    by (simp add: fabs_diff_finite)
  have d21: "fabs_diff 3 2 = Fin 1"
    by (simp add: fabs_diff_finite)
  have d11: "fabs_diff (8556839292003942 / 2 ^ 52) 2 = Fin (225179981368525 / 2 ^ 51)"
    by (rule fabs_diff_eval [where c = "- (225179981368525 / 2 ^ 51)" and d = "- (225179981368525 / 2 ^ 51)"],
        simp, (subst fl_small [where j = 56]; simp add: round_even_def), simp, simp)
  have d12: "fabs_diff (8556839292003942 / 2 ^ 52) (6980579422424269 / 2 ^ 51)
             = Fin (1351079888211149 / 2 ^ 50)"
    by (rule fabs_diff_eval [where c = "- (1351079888211149 / 2 ^ 50)" and d = "- (1351079888211149 / 2 ^ 50)"],
        simp, (subst fl_small [where j = 52]; simp add: round_even_def), simp, simp)
  have d22: "fabs_diff 3 (6980579422424269 / 2 ^ 51) = Fin (225179981368525 / 2 ^ 51)"
    by (rule fabs_diff_eval [where c = "- (225179981368525 / 2 ^ 51)" and d = "- (225179981368525 / 2 ^ 51)"],
        simp, (subst fl_small [where j = 56]; simp add: round_even_def), simp, simp)
  show "C_join_outer (map fl [1.0, 1.9, 3.0]) (map fl [0.9, 2.0, 3.1]) (map fl [0.3, 0.3, 0.3])
     = Inr ([1, 2, 3], [1, 2, 3])"
    unfolding list.map x y t
    by (rule outer_chain_of_three [OF d00 d10 d01 d11 d21 d12 d22]) simp_all
qed

subsection \<open>C7\<close>


subsection \<open>C8\<close>

text \<open>
  Claim C8 (inner within left). Every row of the inner join \<^verbatim>\<open>C_join_inner2\<close> is, with the
  same left index and the same right index, a row of the left join \<^verbatim>\<open>C_join_left2\<close> on the
  same input, and a matched one: its right entry is not the sentinel. Both joins return
  their rows for a tolerance that is a scalar or has the length of \<open>left\<close>; for any other
  tolerance both fail with the usage error.
\<close>

theorem C8_inner_rows_are_left_rows:
  "(if length tolerance = 1 \<or> length tolerance = length x
    then \<exists>ix iy lx ly.
           C_join_inner2 x y tolerance nomatch = Inr (ix, iy) \<and>
           C_join_left2 x y tolerance nomatch = Inr (lx, ly) \<and>
           set (zip ix iy) \<subseteq> {r. r \<in> set (zip lx ly) \<and> snd r \<noteq> nomatch}
    else C_join_inner2 x y tolerance nomatch = Inl UsageError \<and>
         C_join_left2 x y tolerance nomatch = Inl UsageError)"
  by (auto simp: C_join_inner2_eq C_join_left2_eq resolver_result seq_def left_rows_def
      zip_map_fst_snd)

theorem C8_witness:
  "(if length [0, 0 :: real] = 1 \<or> length [0, 0 :: real] = length [1, 5 :: real]
    then \<exists>ix iy lx ly.
           C_join_inner2 [1, 5] [5] [0, 0] NA_INTEGER = Inr (ix, iy) \<and>
           C_join_left2 [1, 5] [5] [0, 0] NA_INTEGER = Inr (lx, ly) \<and>
           set (zip ix iy) \<subseteq> {r. r \<in> set (zip lx ly) \<and> snd r \<noteq> NA_INTEGER}
    else C_join_inner2 [1, 5] [5] [0, 0] NA_INTEGER = Inl UsageError \<and>
         C_join_left2 [1, 5] [5] [0, 0] NA_INTEGER = Inl UsageError)"
  by (rule C8_inner_rows_are_left_rows)

subsection \<open>C9\<close>

text \<open>
  Claim C9 (ordering). For sorted inputs the entries of the left-index column that are not
  the sentinel are non-decreasing from the first row to the last, and so are those of the
  right-index column, for the outer join \<^verbatim>\<open>C_join_outer\<close>, the left join \<^verbatim>\<open>C_join_left\<close>
  and the inner join \<^verbatim>\<open>C_join_inner2\<close>, and as well for \<^verbatim>\<open>C_join_left2\<close> and
  \<^verbatim>\<open>C_join_outer2\<close>.
\<close>

theorem C9_columns_nondecreasing:
  assumes "length tolerance = length left" "sorted left" "sorted right"
  shows "(\<exists>rx ry. C_join_outer left right tolerance = Inr (rx, ry) \<and>
            nondecreasing NA_INTEGER rx \<and> nondecreasing NA_INTEGER ry) \<and>
         (\<exists>rx ry. C_join_left u left right tolerance = Inr (rx, ry) \<and>
            nondecreasing NA_INTEGER rx \<and> nondecreasing NA_INTEGER ry) \<and>
         (\<exists>rx ry. C_join_inner2 left right tolerance nomatch = Inr (rx, ry) \<and>
            nondecreasing nomatch rx \<and> nondecreasing nomatch ry) \<and>
         (\<exists>rx ry. C_join_left2 left right tolerance nomatch = Inr (rx, ry) \<and>
            nondecreasing nomatch rx \<and> nondecreasing nomatch ry) \<and>
         (\<exists>rx ry. C_join_outer2 left right tolerance nomatch = Inr (rx, ry) \<and>
            nondecreasing nomatch rx \<and> nondecreasing nomatch ry)"
proof -
  have 1: "\<exists>rx ry. C_join_outer left right tolerance = Inr (rx, ry) \<and>
            nondecreasing NA_INTEGER rx \<and> nondecreasing NA_INTEGER ry"
    using C_join_outer_sound_mono [OF assms(1), of right] by blast
  have "nondecreasing NA_INTEGER (map (\<lambda>k. int k + 1) [0..<length left])"
    by (rule sorted_nondecreasing [OF index_column_sorted])
  then have 2: "\<exists>rx ry. C_join_left u left right tolerance = Inr (rx, ry) \<and>
            nondecreasing NA_INTEGER rx \<and> nondecreasing NA_INTEGER ry"
    using C_join_left_sound_mono [OF assms(1), of u right] by blast
  have "length left \<le> length tolerance" using assms(1) by simp
  from C_join_outer2_sound_mono [OF this, of right nomatch]
  have 3: "\<exists>rx ry. C_join_outer2 left right tolerance nomatch = Inr (rx, ry) \<and>
            nondecreasing nomatch rx \<and> nondecreasing nomatch ry"
    by blast
  note m = closest_mono [OF assms(2,3), of nomatch tolerance]
  have 4: "\<exists>rx ry. C_join_inner2 left right tolerance nomatch = Inr (rx, ry) \<and>
            nondecreasing nomatch rx \<and> nondecreasing nomatch ry"
    using filter_rows_mono [OF m] by (simp add: C_join_inner2_matching [OF assms(1)])
  have "nondecreasing nomatch (map (\<lambda>k. int k + 1) [0..<length left])"
    by (rule sorted_nondecreasing [OF index_column_sorted])
  with m have 5: "\<exists>rx ry. C_join_left2 left right tolerance nomatch = Inr (rx, ry) \<and>
            nondecreasing nomatch rx \<and> nondecreasing nomatch ry"
    by (simp add: C_join_left2_matching [OF assms(1)])
  show ?thesis
    using 1 2 3 4 5 by blast
qed

theorem C9_witness:
  "length [16, 16, 16 :: real] = length [0, 20, 23 :: real] \<and>
   sorted [0, 20, 23 :: real] \<and> sorted [16, 22 :: real] \<and>
   (\<exists>rx ry. C_join_outer [0, 20, 23] [16, 22] [16, 16, 16] = Inr (rx, ry) \<and>
      nondecreasing NA_INTEGER rx \<and> nondecreasing NA_INTEGER ry) \<and>
   (\<exists>rx ry. C_join_left 0 [0, 20, 23] [16, 22] [16, 16, 16] = Inr (rx, ry) \<and>
      nondecreasing NA_INTEGER rx \<and> nondecreasing NA_INTEGER ry) \<and>
   (\<exists>rx ry. C_join_inner2 [0, 20, 23] [16, 22] [16, 16, 16] NA_INTEGER = Inr (rx, ry) \<and>
      nondecreasing NA_INTEGER rx \<and> nondecreasing NA_INTEGER ry) \<and>
   (\<exists>rx ry. C_join_left2 [0, 20, 23] [16, 22] [16, 16, 16] NA_INTEGER = Inr (rx, ry) \<and>
      nondecreasing NA_INTEGER rx \<and> nondecreasing NA_INTEGER ry) \<and>
   (\<exists>rx ry. C_join_outer2 [0, 20, 23] [16, 22] [16, 16, 16] NA_INTEGER = Inr (rx, ry) \<and>
      nondecreasing NA_INTEGER rx \<and> nondecreasing NA_INTEGER ry)"
  using C9_columns_nondecreasing [of "[16, 16, 16]" "[0, 20, 23]" "[16, 22]" 0 NA_INTEGER] by simp

subsection \<open>C10\<close>

text \<open>
  Claim C10. The scan loop of \<^verbatim>\<open>C_join_outer\<close> terminates and never writes outside its
  buffers. For a tolerance of the length of \<open>x\<close> the call returns a result (so no write left
  the \<open>n + m\<close> cells of a buffer, also not one after \<^verbatim>\<open>idx--\<close>), the two columns have the
  same number of rows, at most \<open>n + m\<close>; every iteration that returns moves at least one
  cursor forward and none backward; and the loop makes at most \<open>n + m\<close> iterations.
\<close>

theorem C10_outer_scan_terminates_in_bounds:
  assumes "length tolerance = length x"
  shows "(\<exists>rx ry. C_join_outer x y tolerance = Inr (rx, ry) \<and> length rx = length ry \<and>
            length rx \<le> length x + length y) \<and>
         outer_iterations x y tolerance (outer_init (length x + length y)) \<le> length x + length y \<and>
         (\<forall>s s'. outer_body x y tolerance s = Inr s' \<longrightarrow>
            xi s \<le> xi s' \<and> yi s \<le> yi s' \<and> xi s + yi s < xi s' + yi s')"
proof -
  from C_join_outer_emitted [OF assms, of y]
  obtain s where s: "C_join_outer x y tolerance = Inr (map fst (emitted s), map snd (emitted s))"
    "outer_inv x y tolerance s" by blast
  then have B: "outer_bounds x y tolerance s" by (simp add: outer_inv_def)
  have "length (emitted s) \<le> length x + length y"
    using B emitted_columns(3) [OF B] by (auto simp: outer_bounds_def)
  with s(1) have 1: "\<exists>rx ry. C_join_outer x y tolerance = Inr (rx, ry) \<and> length rx = length ry \<and>
      length rx \<le> length x + length y"
    by simp
  have "outer_bounds x y tolerance (outer_init (length x + length y))"
    using outer_inv_init [OF assms, of y] by (simp add: outer_inv_def)
  from outer_iterations_bound [OF this]
  have 2: "outer_iterations x y tolerance (outer_init (length x + length y)) \<le> length x + length y"
    by simp
  show ?thesis
    using 1 2 outer_body_moves_cursor by blast
qed

theorem C10_witness:
  "length [0, 0 :: real] = length [1, 5 :: real] \<and>
   (\<exists>rx ry. C_join_outer [1, 5] [3] [0, 0] = Inr (rx, ry) \<and> length rx = length ry \<and>
      length rx \<le> length [1, 5 :: real] + length [3 :: real]) \<and>
   outer_iterations [1, 5] [3] [0, 0] (outer_init (length [1, 5 :: real] + length [3 :: real]))
     \<le> length [1, 5 :: real] + length [3 :: real]"
  using C10_outer_scan_terminates_in_bounds [of "[0, 0]" "[1, 5]" "[3]"] by simp

end
